theory Spec2Isabelle
  imports Complex_Main "HOL-Library.Multiset" "HOL-Library.AList"
begin

section \<open>Strings as the Python source uses them\<close>

text \<open>
  The genre organiser (\<^verbatim>\<open>sort_by_genre.py\<close>) works on Python \<^verbatim>\<open>str\<close> values. A
  \<^typ>\<open>string\<close> here is a sequence of code points below 256, one \<^typ>\<open>char\<close> per code
  point, and the character classes are the ones Python gives these code points:
  \<^verbatim>\<open>str.isspace\<close> (which is also what \<^verbatim>\<open>\s\<close>, \<^verbatim>\<open>str.strip\<close> and \<^verbatim>\<open>str.split\<close>
  use), \<^verbatim>\<open>\w\<close>, \<^verbatim>\<open>\d\<close> and \<^verbatim>\<open>str.lower\<close>.
\<close>

definition isspace :: "char \<Rightarrow> bool" where
  "isspace c =
     (let n = (of_char c :: nat)
      in (9 \<le> n \<and> n \<le> 13) \<or> (28 \<le> n \<and> n \<le> 32) \<or> n = 133 \<or> n = 160)"

definition isdigit :: "char \<Rightarrow> bool" where
  "isdigit c = (let n = (of_char c :: nat) in 48 \<le> n \<and> n \<le> 57)"

definition isword :: "char \<Rightarrow> bool" where
  "isword c =
     (let n = (of_char c :: nat)
      in (48 \<le> n \<and> n \<le> 57) \<or> (65 \<le> n \<and> n \<le> 90) \<or> n = 95 \<or> (97 \<le> n \<and> n \<le> 122)
         \<or> n = 170 \<or> n = 178 \<or> n = 179 \<or> n = 181 \<or> n = 185 \<or> n = 186
         \<or> (188 \<le> n \<and> n \<le> 190) \<or> (192 \<le> n \<and> n \<le> 214) \<or> (216 \<le> n \<and> n \<le> 246)
         \<or> 248 \<le> n)"

definition lower_char :: "char \<Rightarrow> char" where
  "lower_char c =
     (let n = (of_char c :: nat)
      in if (65 \<le> n \<and> n \<le> 90) \<or> (192 \<le> n \<and> n \<le> 222 \<and> n \<noteq> 215)
         then char_of (n + 32) else c)"

definition lower :: "string \<Rightarrow> string" where
  "lower s = map lower_char s"

definition strip :: "string \<Rightarrow> string" where
  "strip s = rev (dropWhile isspace (rev (dropWhile isspace s)))"

definition startswith :: "string \<Rightarrow> string \<Rightarrow> bool" where
  "startswith s p = (take (length p) s = p)"

definition endswith :: "string \<Rightarrow> string \<Rightarrow> bool" where
  "endswith s p = (length p \<le> length s \<and> drop (length s - length p) s = p)"

text \<open>\<^verbatim>\<open>sub in s\<close>: \<open>sub\<close> occurs in \<open>s\<close> as a contiguous substring.\<close>

primrec contains :: "string \<Rightarrow> string \<Rightarrow> bool" where
  "contains [] sub = (sub = [])"
| "contains (c # cs) sub = (startswith (c # cs) sub \<or> contains cs sub)"

text \<open>\<^verbatim>\<open>s.replace(old, new)\<close>: every occurrence, leftmost first, without overlap.\<close>

function replace :: "string \<Rightarrow> string \<Rightarrow> string \<Rightarrow> string" where
  "replace old new [] = (if old = [] then new else [])"
| "replace old new (c # cs) =
     (if old = [] then new @ c # replace old new cs
      else if startswith (c # cs) old
           then new @ replace old new (drop (length old) (c # cs))
           else c # replace old new cs)"
  by pat_completeness auto
termination
  by (relation "measure (\<lambda>(old, new, s). length s)") (auto simp: neq_Nil_conv)

text \<open>\<^verbatim>\<open>re.sub(r'\s+', ' ', s)\<close>: every maximal run of whitespace becomes one space.\<close>

function collapse_ws :: "string \<Rightarrow> string" where
  "collapse_ws [] = []"
| "collapse_ws (c # cs) =
     (if isspace c then CHR '' '' # collapse_ws (dropWhile isspace cs)
      else c # collapse_ws cs)"
  by pat_completeness auto
termination
  by (relation "measure length") (auto simp: length_dropWhile_le less_Suc_eq_le)

text \<open>
  \<^verbatim>\<open>re.sub(r'\([^)]*\)', '', s)\<close> and \<^verbatim>\<open>re.sub(r'\[[^\]]*\]', '', s)\<close>: an opening
  character is matched together with everything up to the first closing character after it;
  with no closing character left, nothing more matches.
\<close>

function remove_group :: "char \<Rightarrow> char \<Rightarrow> string \<Rightarrow> string" where
  "remove_group l r [] = []"
| "remove_group l r (c # cs) =
     (if c = l \<and> r \<in> set cs
      then remove_group l r (tl (dropWhile (\<lambda>x. x \<noteq> r) cs))
      else c # remove_group l r cs)"
  by pat_completeness auto
termination
  by (relation "measure (\<lambda>(l, r, s). length s)")
     (auto simp: less_Suc_eq_le intro: le_trans [OF diff_le_self length_dropWhile_le])

definition remove_parens :: "string \<Rightarrow> string" where
  "remove_parens = remove_group (CHR ''('') (CHR '')'')"

definition remove_brackets :: "string \<Rightarrow> string" where
  "remove_brackets = remove_group (CHR ''['') (CHR '']'')"

text \<open>\<^verbatim>\<open>re.sub(r'[^\w\s]', ' ', s)\<close>.\<close>

definition sub_punct :: "string \<Rightarrow> string" where
  "sub_punct s = map (\<lambda>c. if isword c \<or> isspace c then c else CHR '' '') s"

text \<open>
  \<^verbatim>\<open>re.sub(r'\s*\d+\s*$', '', s)\<close>: the match is the last run of digits with the whitespace
  around it, when only whitespace follows that run; otherwise the string is unchanged.
\<close>

definition strip_end_nums :: "string \<Rightarrow> string" where
  "strip_end_nums s =
     (let r1 = dropWhile isspace (rev s); r2 = dropWhile isdigit r1
      in if r2 = r1 then s else rev (dropWhile isspace r2))"

section \<open>Python sets\<close>

text \<open>
  A Python \<^verbatim>\<open>set\<close> is kept as the list of its elements in the order of their first
  insertion. Python iterates a set in an order of its own (it depends on the hashes), so
  every loop over a set goes through a parameter \<open>iter\<close> that lists the elements of the
  set in the order of that run; the theorems ask of \<open>iter\<close> only that it keeps the
  elements.
\<close>

type_synonym 'a pyset = "'a list"

definition set_add :: "'a \<Rightarrow> 'a pyset \<Rightarrow> 'a pyset" where
  "set_add x xs = (if x \<in> set xs then xs else xs @ [x])"

definition set_update :: "'a pyset \<Rightarrow> 'a list \<Rightarrow> 'a pyset" where
  "set_update xs ys = fold set_add ys xs"

definition keeps_elements :: "(string pyset \<Rightarrow> string list) \<Rightarrow> bool" where
  "keeps_elements iter = (\<forall>xs. set (iter xs) = set xs)"

definition insertion_order :: "string pyset \<Rightarrow> string list" where
  "insertion_order xs = xs"

section \<open>The variation generator\<close>

text \<open>
  \<^verbatim>\<open>create_ultra_aggressive_variations(name)\<close>, pass by pass. Each pass that loops over
  \<^verbatim>\<open>list(variations)\<close> reads the set through \<open>iter\<close>.
\<close>

text \<open>Step 1: the two base patterns; a non-empty result becomes the new \<^verbatim>\<open>current\<close>.\<close>

definition base_pattern_step ::
  "(string \<Rightarrow> string) \<Rightarrow> string pyset \<times> string \<Rightarrow> string pyset \<times> string" where
  "base_pattern_step rm st =
     (case st of (variations, current) \<Rightarrow>
        let cleaned = collapse_ws (strip (rm current))
        in if cleaned \<noteq> []
           then (set_add (lower cleaned) (set_add cleaned variations), cleaned)
           else (variations, current))"

definition base_patterns :: "(string \<Rightarrow> string) list" where
  "base_patterns = [remove_parens, remove_brackets]"

text \<open>Step 2: separators.\<close>

definition separators :: "string list" where
  "separators = [''_'', ''-'', ''.'', ''+'', ''&'', [CHR 0x27], ''!'', ''?'', '':'', '';'', '' - '']"

definition separator_variants :: "string \<Rightarrow> string list" where
  "separator_variants variant =
     concat (map (\<lambda>sep.
       if contains variant sep
       then (let with_space = strip (collapse_ws (replace sep '' '' variant));
                 without_sep = strip (collapse_ws (replace sep [] variant))
             in [with_space, lower with_space, without_sep, lower without_sep])
       else []) separators)"

text \<open>Step 3: the article, at the beginning and at the end.\<close>

definition article_variants :: "string \<Rightarrow> string list" where
  "article_variants variant =
     (if startswith (lower variant) ''the ''
      then (let without_the = strip (drop 4 variant);
                with_comma = without_the @ '', The''
            in [without_the, lower without_the, with_comma, lower with_comma])
      else [])
     @
     (if endswith (lower variant) '', the''
      then (let without_the = strip (take (length variant - 5) variant);
                with_the = ''The '' @ without_the
            in [without_the, lower without_the, with_the, lower with_the])
      else [])"

text \<open>Step 4: punctuation; the loop adds to the set while it runs over the snapshot.\<close>

definition punct_step :: "string \<Rightarrow> string pyset \<Rightarrow> string pyset" where
  "punct_step variant variations =
     (let no_punct = strip (collapse_ws (sub_punct variant))
      in if no_punct \<noteq> []
         then set_add (lower no_punct) (set_add no_punct variations)
         else variations)"

text \<open>Step 5: roman numerals (the dictionary in its written order) and trailing numbers.\<close>

definition roman_conversions :: "(string \<times> string) list" where
  "roman_conversions =
     [('' II'', '' 2''), ('' III'', '' 3''), ('' IV'', '' 4''), ('' V'', '' 5''),
      (''II '', ''2 ''), (''III '', ''3 ''), (''IV '', ''4 ''), (''V '', ''5 ''),
      (''II'', ''2''), (''III'', ''3''), (''IV'', ''4''), (''V'', ''5'')]"

definition number_variants :: "string \<Rightarrow> string list" where
  "number_variants variant =
     concat (map (\<lambda>(roman, arabic).
       if contains (lower variant) (lower roman)
       then (let converted = replace roman arabic variant
             in [converted, lower converted])
       else []) roman_conversions)
     @
     (let no_end_nums = strip (strip_end_nums variant)
      in if no_end_nums \<noteq> variant then [no_end_nums, lower no_end_nums] else [])"

text \<open>Step 6: abbreviations, both ways.\<close>

definition abbreviations :: "(string \<times> string) list" where
  "abbreviations =
     [(''Dr.'', ''Doctor''), (''Mr.'', ''Mister''), (''Bros.'', ''Brothers''),
      (''Co.'', ''Company''), (''&'', ''and''), (''vs.'', ''versus''), (''vs'', ''versus'')]"

definition abbrev_variants :: "string \<Rightarrow> string list" where
  "abbrev_variants variant =
     concat (map (\<lambda>(abbrev, expansion).
       (if contains (lower variant) (lower abbrev)
        then (let expanded = replace abbrev expansion variant
              in [expanded, lower expanded])
        else [])
       @
       (if contains (lower variant) (lower expansion)
        then (let abbreviated = replace expansion abbrev variant
              in [abbreviated, lower abbreviated])
        else [])) abbreviations)"

text \<open>The final loop: \<^verbatim>\<open>final_variations\<close> and \<^verbatim>\<open>seen\<close>.\<close>

definition final_step :: "string \<Rightarrow> string list \<times> string pyset \<Rightarrow> string list \<times> string pyset" where
  "final_step var st =
     (case st of (final_variations, seen) \<Rightarrow>
        if var \<noteq> [] \<and> length (strip var) > 1
        then (let cleaned = collapse_ws (strip var)
              in if cleaned \<notin> set seen
                 then (final_variations @ [cleaned], set_add cleaned seen)
                 else (final_variations, seen))
        else (final_variations, seen))"

definition all_variations :: "(string pyset \<Rightarrow> string list) \<Rightarrow> string \<Rightarrow> string pyset" where
  "all_variations iter name =
     (let original = strip name;
          v0 = set_add (lower original) (set_add original []);
          v1 = fst (fold base_pattern_step base_patterns (v0, original));
          v2 = set_update v1 (concat (map separator_variants (iter v1)));
          v3 = set_update v2 (concat (map article_variants (iter v2)));
          v4 = fold punct_step (iter v3) v3;
          v5 = set_update v4 (concat (map number_variants (iter v4)));
          v6 = set_update v5 (concat (map abbrev_variants (iter v5)))
      in v6)"

definition create_ultra_aggressive_variations ::
  "(string pyset \<Rightarrow> string list) \<Rightarrow> string \<Rightarrow> string list" where
  "create_ultra_aggressive_variations iter name =
     fst (fold final_step (iter (all_variations iter name)) ([], []))"

section \<open>The catalog loader\<close>

text \<open>
  The XML document is read by \<^verbatim>\<open>xml.etree.ElementTree\<close>; the loader sees either a parse
  failure or the \<^verbatim>\<open>game\<close> elements in document order. Of a game element the loader
  reads the \<^verbatim>\<open>name\<close> attribute, and the \<^verbatim>\<open>name\<close> and \<^verbatim>\<open>genre\<close> children: \<open>None\<close> is a
  missing child, \<open>Some None\<close> a child without text.
\<close>

record game =
  name_attrib :: "string option"
  name_elem :: "string option option"
  genre_elem :: "string option option"

datatype xml_source = ParseError | Document "game list"

record entry =
  original_name :: string
  clean_name :: string
  genre :: string
  full_genre :: string

text \<open>
  A \<^verbatim>\<open>dict\<close> is an association list in insertion order: \<^const>\<open>AList.update\<close> overwrites
  the value of a key that is present, where it stands, and appends a new key.
\<close>

type_synonym ('k, 'v) dict = "('k \<times> 'v) list"

text \<open>\<^verbatim>\<open>re.sub(pattern, '', s, flags=re.IGNORECASE)\<close> for a pattern that is a literal text.\<close>

function remove_ci :: "string \<Rightarrow> string \<Rightarrow> string" where
  "remove_ci pat [] = []"
| "remove_ci pat (c # cs) =
     (if pat \<noteq> [] \<and> lower (take (length pat) (c # cs)) = lower pat
      then remove_ci pat (drop (length pat) (c # cs))
      else c # remove_ci pat cs)"
  by pat_completeness auto
termination
  by (relation "measure (\<lambda>(pat, s). length s)") (auto simp: neq_Nil_conv)

definition region_patterns :: "string list" where
  "region_patterns =
     [''(USA, Europe)'', ''(USA)'', ''(Europe)'', ''(Japan)'', ''(World)'', ''(U)'', ''(E)'',
      ''(J)'', ''(W)'', ''(Beta)'', ''(Alpha)'', ''(Demo)'', ''(Proto)'', ''(Prototype)'',
      ''(Unl)'', ''(Unlicensed)'']"

definition region_step :: "string \<Rightarrow> string \<Rightarrow> string" where
  "region_step pattern clean_base_name = collapse_ws (strip (remove_ci pattern clean_base_name))"

definition game_name :: "game \<Rightarrow> string option" where
  "game_name g =
     (case name_attrib g of
        Some n \<Rightarrow> Some n
      | None \<Rightarrow> (case name_elem g of None \<Rightarrow> None | Some text \<Rightarrow> text))"

text \<open>\<^verbatim>\<open>genre_elem is not None and genre_elem.text\<close>: the text, when there is a non-empty one.\<close>

definition genre_text :: "game \<Rightarrow> string option" where
  "genre_text g =
     (case genre_elem g of
        Some (Some text) \<Rightarrow> (if text \<noteq> [] then Some text else None)
      | _ \<Rightarrow> None)"

text \<open>\<^verbatim>\<open>genre.split('/')[0]\<close>.\<close>

definition first_segment :: "string \<Rightarrow> string" where
  "first_segment s = takeWhile (\<lambda>c. c \<noteq> CHR ''/'') s"

definition game_genre :: "game \<Rightarrow> string" where
  "game_genre g =
     (let genre0 = (case genre_text g of Some text \<Rightarrow> strip text | None \<Rightarrow> ''Unknown'')
      in if CHR ''/'' \<in> set genre0 then strip (first_segment genre0) else genre0)"

definition game_full_genre :: "game \<Rightarrow> string" where
  "game_full_genre g = (case genre_text g of Some text \<Rightarrow> strip text | None \<Rightarrow> game_genre g)"

definition store_variation :: "entry \<Rightarrow> string \<Rightarrow> (string, entry) dict \<Rightarrow> (string, entry) dict" where
  "store_variation e variation rom_metadata =
     (if variation \<noteq> [] \<and> length (strip variation) > 1
      then AList.update variation e rom_metadata
      else rom_metadata)"

text \<open>One round of the loop over the games; \<^verbatim>\<open>continue\<close> leaves the state as it is.\<close>

definition process_game ::
  "(string pyset \<Rightarrow> string list) \<Rightarrow> game \<Rightarrow>
   (string, entry) dict \<times> string list \<Rightarrow> (string, entry) dict \<times> string list" where
  "process_game iter g st =
     (case st of (rom_metadata, xml_name_list) \<Rightarrow>
        (case game_name g of
           None \<Rightarrow> st
         | Some raw_name \<Rightarrow>
             if raw_name = [] then st
             else
               (let name = strip raw_name;
                    variations = create_ultra_aggressive_variations iter name;
                    clean_base_name = fold region_step region_patterns name;
                    variations' =
                      (if clean_base_name \<noteq> [] \<and> clean_base_name \<noteq> name
                       then clean_base_name # lower clean_base_name # variations
                       else variations);
                    e = \<lparr>original_name = name, clean_name = clean_base_name,
                         genre = game_genre g, full_genre = game_full_genre g\<rparr>
                in (fold (store_variation e) (take 50 variations') rom_metadata,
                    xml_name_list @ [name]))))"

text \<open>
  \<^verbatim>\<open>enhanced_xml_parsing\<close>. The whole body is inside \<^verbatim>\<open>try\<close>; besides the parse, the
  write of \<^verbatim>\<open>xml_games.txt\<close> can raise, which \<open>report_ok\<close> stands for. Every exception
  ends in \<^verbatim>\<open>return {}, []\<close>.
\<close>

definition enhanced_xml_parsing ::
  "(string pyset \<Rightarrow> string list) \<Rightarrow> bool \<Rightarrow> xml_source \<Rightarrow> (string, entry) dict \<times> string list" where
  "enhanced_xml_parsing iter report_ok src =
     (case src of
        ParseError \<Rightarrow> ([], [])
      | Document games \<Rightarrow>
          if report_ok then fold (process_game iter) games ([], []) else ([], []))"

section \<open>The matcher\<close>

text \<open>
  A ROM file is a \<^verbatim>\<open>pathlib.Path\<close>, given by its components, directories first.
  \<^verbatim>\<open>Path.name\<close> is the last component, \<^verbatim>\<open>Path.stem\<close> the name without its last suffix.
\<close>

type_synonym path = "string list"

definition path_name :: "path \<Rightarrow> string" where
  "path_name p = (if p = [] then [] else last p)"

definition rfind_dot :: "string \<Rightarrow> nat option" where
  "rfind_dot name =
     (if CHR ''.'' \<in> set name
      then Some (length name - 1 - length (takeWhile (\<lambda>c. c \<noteq> CHR ''.'') (rev name)))
      else None)"

definition path_stem :: "path \<Rightarrow> string" where
  "path_stem p =
     (let name = path_name p
      in case rfind_dot name of
           Some i \<Rightarrow> if 0 < i \<and> i < length name - 1 then take i name else name
         | None \<Rightarrow> name)"

text \<open>A loop that returns at its first hit.\<close>

fun first_some :: "('a \<Rightarrow> 'b option) \<Rightarrow> 'a list \<Rightarrow> 'b option" where
  "first_some f [] = None"
| "first_some f (x # xs) = (case f x of Some y \<Rightarrow> Some y | None \<Rightarrow> first_some f xs)"

text \<open>Strategy 1: a variation that is a key.\<close>

definition exact_match :: "string list \<Rightarrow> (string, entry) dict \<Rightarrow> entry option" where
  "exact_match rom_variations metadata = first_some (map_of metadata) rom_variations"

text \<open>Strategy 2: a variation that is a key up to case.\<close>

definition case_match :: "string list \<Rightarrow> (string, entry) dict \<Rightarrow> entry option" where
  "case_match rom_variations metadata =
     first_some (\<lambda>variation.
       first_some (\<lambda>(meta_key, meta_data).
         if lower variation = lower meta_key then Some meta_data else None) metadata)
       rom_variations"

text \<open>
  Strategy 3: substrings, for short ROM names. The source compares
  \<^verbatim>\<open>len(variation_lower) >= len(meta_lower) * 0.6\<close> in floating point; for lengths below
  \<open>2^50\<close> the rounded product is at least the integer on the left exactly when
  \<open>3 * len(meta_lower) \<le> 5 * len(variation_lower)\<close>, which is what the model tests.
\<close>

definition substring_match :: "string \<Rightarrow> string list \<Rightarrow> (string, entry) dict \<Rightarrow> entry option" where
  "substring_match rom_name rom_variations metadata =
     (if length rom_name \<le> 12
      then first_some (\<lambda>variation.
             let variation_lower = lower variation
             in if length variation_lower \<ge> 4
                then first_some (\<lambda>(meta_key, meta_data).
                       let meta_lower = lower meta_key
                       in if contains meta_lower variation_lower
                             \<and> 3 * length meta_lower \<le> 5 * length variation_lower
                          then Some meta_data else None) metadata
                else None) rom_variations
      else None)"

text \<open>\<^verbatim>\<open>for meta_key, meta_data in metadata.items(): if meta_data['original_name'] == n\<close>.\<close>

definition entry_named :: "(string, entry) dict \<Rightarrow> string \<Rightarrow> entry option" where
  "entry_named metadata n =
     first_some (\<lambda>(meta_key, meta_data).
       if original_name meta_data = n then Some meta_data else None) metadata"

text \<open>
  Strategy 4: similarity. \<^verbatim>\<open>difflib.SequenceMatcher(None, a, b).ratio()\<close> is a library
  function; it is the parameter \<open>ratio\<close>, with exact rational values (the comparison with
  \<^verbatim>\<open>0.70\<close> agrees with the exact one on the quotients \<open>2 * M / T\<close> that it returns).
\<close>

definition similarity :: "(string \<Rightarrow> string \<Rightarrow> rat) \<Rightarrow> string \<Rightarrow> string \<Rightarrow> rat" where
  "similarity ratio a b = ratio (lower a) (lower b)"

definition best_step ::
  "(string \<Rightarrow> string \<Rightarrow> rat) \<Rightarrow> string \<Rightarrow> string \<Rightarrow> string option \<times> rat \<Rightarrow> string option \<times> rat" where
  "best_step ratio rom_var xml_name st =
     (case st of (best_match, best_score) \<Rightarrow>
        let score = similarity ratio (lower rom_var) (lower xml_name)
        in if score > best_score \<and> score \<ge> 7 / 10 then (Some xml_name, score) else st)"

definition similarity_match ::
  "(string \<Rightarrow> string \<Rightarrow> rat) \<Rightarrow> string list \<Rightarrow> (string, entry) dict \<Rightarrow> string list \<Rightarrow> entry option" where
  "similarity_match ratio rom_variations metadata xml_names =
     (let (best_match, best_score) =
            fold (\<lambda>rom_var st. fold (best_step ratio rom_var) (take 300 xml_names) st)
              (take 15 rom_variations) (None, 0)
      in case best_match of
           None \<Rightarrow> None
         | Some n \<Rightarrow> if n \<noteq> [] then entry_named metadata n else None)"

text \<open>\<^verbatim>\<open>s.split()\<close>: the maximal runs of characters that are not whitespace.\<close>

function split_ws :: "string \<Rightarrow> string list" where
  "split_ws s =
     (if dropWhile isspace s = [] then []
      else takeWhile (\<lambda>c. \<not> isspace c) (dropWhile isspace s)
           # split_ws (dropWhile (\<lambda>c. \<not> isspace c) (dropWhile isspace s)))"
  by pat_completeness auto
termination
proof (relation "measure length", goal_cases)
  case 1
  show ?case by simp
next
  case (2 s)
  obtain c cs where t: "dropWhile isspace s = c # cs"
    using 2 unfolding neq_Nil_conv by blast
  have "\<not> isspace (hd (dropWhile isspace s))"
    using 2 by (rule hd_dropWhile)
  then have c: "\<not> isspace c"
    unfolding t by simp
  have "length (dropWhile (\<lambda>c. \<not> isspace c) (c # cs)) \<le> length cs"
    using c by (simp add: length_dropWhile_le)
  also have "length cs < length (dropWhile isspace s)"
    unfolding t by simp
  also have "\<dots> \<le> length s"
    by (rule length_dropWhile_le)
  finally show ?case
    unfolding t by simp
qed

text \<open>The significant words of a name, as a set: \<^verbatim>\<open>{w for w in ... if len(w) > 2}\<close>.\<close>

definition key_words :: "string \<Rightarrow> string pyset" where
  "key_words s = remdups (filter (\<lambda>w. length w > 2) (split_ws (sub_punct s)))"

definition xml_clean_of :: "string \<Rightarrow> string" where
  "xml_clean_of xml_name = lower (strip (remove_parens xml_name))"

text \<open>
  Strategy 5: common words. The coverages are quotients of set sizes compared with
  \<^verbatim>\<open>0.5\<close>, that is \<open>2 * common \<ge> size\<close>.
\<close>

definition word_match :: "string \<Rightarrow> (string, entry) dict \<Rightarrow> string list \<Rightarrow> entry option" where
  "word_match rom_name metadata xml_names =
     (let rom_words = key_words (lower rom_name)
      in if length rom_words \<ge> 1
         then first_some (\<lambda>xml_name.
                let xml_words = key_words (xml_clean_of xml_name)
                in if length xml_words \<ge> 1
                   then (let common_words = filter (\<lambda>w. w \<in> set xml_words) rom_words
                         in if length common_words \<ge> 1
                               \<and> (2 * length common_words \<ge> length rom_words
                                  \<or> 2 * length common_words \<ge> length xml_words)
                            then entry_named metadata xml_name else None)
                   else None) (take 500 xml_names)
         else None)"

text \<open>
  Strategy 6: a single word. \<^verbatim>\<open>len(rom_word) >= clean_length * 0.3\<close> is, as above,
  \<open>3 * clean_length \<le> 10 * len(rom_word)\<close>.
\<close>

definition single_word_match :: "string \<Rightarrow> (string, entry) dict \<Rightarrow> string list \<Rightarrow> entry option" where
  "single_word_match rom_name metadata xml_names =
     (case key_words (lower rom_name) of
        [rom_word] \<Rightarrow>
          if length rom_word \<ge> 4
          then first_some (\<lambda>xml_name.
                 let xml_clean = xml_clean_of xml_name
                 in if contains xml_clean rom_word
                    then (let clean_length = length (replace '' '' [] xml_clean)
                          in if 3 * clean_length \<le> 10 * length rom_word
                             then entry_named metadata xml_name else None)
                    else None) (take 200 xml_names)
          else None
      | _ \<Rightarrow> None)"

definition hyper_aggressive_rom_matching ::
  "(string pyset \<Rightarrow> string list) \<Rightarrow> (string \<Rightarrow> string \<Rightarrow> rat) \<Rightarrow>
   path \<Rightarrow> (string, entry) dict \<Rightarrow> string list \<Rightarrow> entry option" where
  "hyper_aggressive_rom_matching iter ratio rom_file metadata xml_names =
     (let rom_name = path_stem rom_file;
          rom_variations = create_ultra_aggressive_variations iter rom_name
      in first_some (\<lambda>strategy. strategy)
           [exact_match rom_variations metadata,
            case_match rom_variations metadata,
            substring_match rom_name rom_variations metadata,
            similarity_match ratio rom_variations metadata xml_names,
            word_match rom_name metadata xml_names,
            single_word_match rom_name metadata xml_names])"

section \<open>The batch matching scheduler\<close>

record match_result =
  rom_file :: path
  matched :: bool
  result_genre :: string
  xml_name :: "string option"
  result_full_genre :: string

definition process_rom_batch_matching_only ::
  "(string pyset \<Rightarrow> string list) \<Rightarrow> (string \<Rightarrow> string \<Rightarrow> rat) \<Rightarrow>
   path list \<Rightarrow> (string, entry) dict \<Rightarrow> string list \<Rightarrow> match_result list" where
  "process_rom_batch_matching_only iter ratio rom_batch metadata xml_names =
     map (\<lambda>rom.
       case hyper_aggressive_rom_matching iter ratio rom metadata xml_names of
         Some metadata_entry \<Rightarrow>
           \<lparr>rom_file = rom, matched = True, result_genre = genre metadata_entry,
            xml_name = Some (original_name metadata_entry),
            result_full_genre = full_genre metadata_entry\<rparr>
       | None \<Rightarrow>
           \<lparr>rom_file = rom, matched = False, result_genre = ''Unknown'',
            xml_name = None, result_full_genre = ''Unknown''\<rparr>) rom_batch"

text \<open>\<^verbatim>\<open>range(0, stop, step)\<close> for a positive step.\<close>

definition py_range :: "nat \<Rightarrow> nat \<Rightarrow> nat list" where
  "py_range stop step = map (\<lambda>k. k * step) [0..<(stop + step - 1) div step]"

text \<open>\<^verbatim>\<open>max(1, total_roms // max_workers)\<close>; the division is Python's floor division.\<close>

definition batch_size_of :: "nat \<Rightarrow> int \<Rightarrow> nat" where
  "batch_size_of total_roms max_workers = nat (max 1 (int total_roms div max_workers))"

text \<open>\<^verbatim>\<open>[rom_files[i:i + batch_size] for i in range(0, total_roms, batch_size)]\<close>.\<close>

definition rom_batches :: "nat \<Rightarrow> 'a list \<Rightarrow> 'a list list" where
  "rom_batches batch_size rom_files =
     map (\<lambda>i. take batch_size (drop i rom_files)) (py_range (length rom_files) batch_size)"

datatype error = ZeroDivisionError | ValueError

text \<open>
  Phase 1 of \<^verbatim>\<open>organize_roms_by_genre\<close>. A worker count of zero fails in the division,
  a negative one in the constructor of the thread pool. The batches are matched by the pool
  and their results are appended as the futures complete: \<open>sched\<close> puts the list of batch
  results in the order of completion, which is some permutation of it.
\<close>

definition matching_phase ::
  "(match_result list list \<Rightarrow> match_result list list) \<Rightarrow>
   (string pyset \<Rightarrow> string list) \<Rightarrow> (string \<Rightarrow> string \<Rightarrow> rat) \<Rightarrow>
   path list \<Rightarrow> (string, entry) dict \<Rightarrow> string list \<Rightarrow> int \<Rightarrow> error + match_result list" where
  "matching_phase sched iter ratio rom_files metadata xml_names max_workers =
     (if max_workers = 0 then Inl ZeroDivisionError
      else
        (let batch_size = batch_size_of (length rom_files) max_workers;
             batches = rom_batches batch_size rom_files
         in if max_workers < 0 then Inl ValueError
            else Inr (concat (sched (map (\<lambda>batch.
                   process_rom_batch_matching_only iter ratio batch metadata xml_names) batches)))))"

definition completion_order :: "('a list \<Rightarrow> 'a list) \<Rightarrow> bool" where
  "completion_order sched = (\<forall>xs. mset (sched xs) = mset xs)"

definition rom_genre_pairs :: "match_result list \<Rightarrow> (path \<times> string) set" where
  "rom_genre_pairs results = set (map (\<lambda>r. (rom_file r, result_genre r)) results)"

section \<open>The sequential copier\<close>

text \<open>The two settings of \<^verbatim>\<open>config.py\<close> that the copier reads.\<close>

record config =
  remove_special_chars :: bool
  trim_filename_length :: "nat option"

definition shipped_config :: config where
  "shipped_config = \<lparr>remove_special_chars = True, trim_filename_length = Some 32\<rparr>"

text \<open>The characters of the first pattern of \<^verbatim>\<open>clean_filename\<close>: \<^verbatim>\<open>[<>:"/\\|?*]\<close>.\<close>

definition illegal_chars :: "char list" where
  "illegal_chars = ''<>:'' @ [CHR 0x22] @ ''/'' @ [CHR 0x5C] @ ''|?*''"

text \<open>The characters that the second pattern, \<^verbatim>\<open>[^\w\s\-_\.]\<close>, leaves in place.\<close>

definition kept_char :: "char \<Rightarrow> bool" where
  "kept_char c = (isword c \<or> isspace c \<or> c = CHR ''-'' \<or> c = CHR ''_'' \<or> c = CHR ''.'')"

text \<open>\<^verbatim>\<open>s[:n]\<close> for an integer \<open>n\<close>: a negative \<open>n\<close> counts from the end.\<close>

definition slice_to :: "string \<Rightarrow> int \<Rightarrow> string" where
  "slice_to s n = (if 0 \<le> n then take (nat n) s else take (length s - nat (- n)) s)"

definition clean_filename :: "config \<Rightarrow> string \<Rightarrow> nat option \<Rightarrow> string" where
  "clean_filename cfg filename max_length =
     (let filename1 =
            (if remove_special_chars cfg
             then filter kept_char (filter (\<lambda>c. c \<notin> set illegal_chars) filename)
             else filename);
          filename2 =
            (case max_length of
               Some m \<Rightarrow>
                 if m \<noteq> 0 \<and> length filename1 > m
                 then (let name_part = (case rfind_dot filename1 of
                                          Some i \<Rightarrow> take i filename1 | None \<Rightarrow> filename1);
                           ext_part = (case rfind_dot filename1 of
                                         Some i \<Rightarrow> CHR ''.'' # drop (Suc i) filename1 | None \<Rightarrow> []);
                           available_length = int m - int (length ext_part)
                       in slice_to name_part available_length @ ext_part)
                 else filename1
             | None \<Rightarrow> filename1)
      in strip filename2)"

text \<open>\<^verbatim>\<open>clean_filename(result['genre']) or "Unknown"\<close>.\<close>

definition clean_genre_of :: "config \<Rightarrow> match_result \<Rightarrow> string" where
  "clean_genre_of cfg result =
     (let cleaned = clean_filename cfg (result_genre result) None
      in if cleaned = [] then ''Unknown'' else cleaned)"

definition destination_name_of :: "config \<Rightarrow> match_result \<Rightarrow> string" where
  "destination_name_of cfg result =
     (case trim_filename_length cfg of
        Some m \<Rightarrow> if m \<noteq> 0 then clean_filename cfg (path_name (rom_file result)) (Some m)
                  else path_name (rom_file result)
      | None \<Rightarrow> path_name (rom_file result))"

text \<open>
  The destination tree under \<^verbatim>\<open>genre_dir\<close>: the genre folders that exist and the files in
  them, a file being addressed by its folder and its name. Two different addresses are two
  different files, and \<^verbatim>\<open>mkdir(exist_ok=True)\<close> succeeds (the caller has created
  \<^verbatim>\<open>genre_dir\<close>). The ROM collection is read through \<open>read_rom\<close>, which gives the content
  of a ROM file, or \<open>None\<close> when \<^verbatim>\<open>shutil.copy2\<close> raises for it; the copier does not write
  into the collection.
\<close>

type_synonym content = string

record tree =
  folders :: "string set"
  files :: "string \<times> string \<rightharpoonup> content"

record stats =
  n_matched :: nat
  n_unmatched :: nat
  genres :: "(string, nat) dict"

text \<open>
  The state of the loop of \<^verbatim>\<open>copy_roms_sequentially\<close>: the three values it returns, the
  tree it writes, and the list of the copies it has made (source and address).
\<close>

record copy_state =
  stats :: stats
  matched_details :: "(string \<times> string option \<times> string) list"
  unmatched_roms :: "string list"
  dest :: tree
  copies :: "(path \<times> string \<times> string) list"

text \<open>\<^verbatim>\<open>d.get(k, 0)\<close>.\<close>

definition get0 :: "(string, nat) dict \<Rightarrow> string \<Rightarrow> nat" where
  "get0 d k = (case map_of d k of Some n \<Rightarrow> n | None \<Rightarrow> 0)"

definition copy_step :: "config \<Rightarrow> (path \<rightharpoonup> content) \<Rightarrow> match_result \<Rightarrow> copy_state \<Rightarrow> copy_state" where
  "copy_step cfg read_rom result st =
     (let rom = rom_file result;
          clean_genre = clean_genre_of cfg result;
          st1 = (if matched result
                 then st\<lparr>stats := (stats st)\<lparr>n_matched := n_matched (stats st) + 1\<rparr>,
                         matched_details := matched_details st
                           @ [(path_name rom, xml_name result, result_full_genre result)]\<rparr>
                 else st\<lparr>stats := (stats st)\<lparr>n_unmatched := n_unmatched (stats st) + 1\<rparr>,
                         unmatched_roms := unmatched_roms st @ [path_name rom]\<rparr>);
          st2 = st1\<lparr>stats := (stats st1)\<lparr>genres :=
                  AList.update clean_genre (get0 (genres (stats st1)) clean_genre + 1)
                    (genres (stats st1))\<rparr>\<rparr>;
          st3 = st2\<lparr>dest := (dest st2)\<lparr>folders := insert clean_genre (folders (dest st2))\<rparr>\<rparr>;
          destination = (clean_genre, destination_name_of cfg result)
      in if files (dest st3) destination = None
         then (case read_rom rom of
                 Some c \<Rightarrow>
                   st3\<lparr>dest := (dest st3)\<lparr>files := (files (dest st3))(destination \<mapsto> c)\<rparr>,
                       copies := copies st3 @ [(rom, destination)]\<rparr>
               | None \<Rightarrow> st3)
         else st3)"

definition initial_copy_state :: "tree \<Rightarrow> copy_state" where
  "initial_copy_state t =
     \<lparr>stats = \<lparr>n_matched = 0, n_unmatched = 0, genres = []\<rparr>,
      matched_details = [], unmatched_roms = [], dest = t, copies = []\<rparr>"

definition copy_roms_sequentially ::
  "config \<Rightarrow> (path \<rightharpoonup> content) \<Rightarrow> match_result list \<Rightarrow> tree \<Rightarrow> copy_state" where
  "copy_roms_sequentially cfg read_rom rom_results t =
     fold (copy_step cfg read_rom) rom_results (initial_copy_state t)"

section \<open>The organize operation\<close>

datatype outcome =
    NoMetadata
  | NoRomFiles
  | Raised error
  | Organized stats "(string \<times> string option \<times> string) list" "string list"

text \<open>
  \<^verbatim>\<open>organize_roms_by_genre\<close>, from the parse on: the two early returns, phase 1 and phase 2.
  The result is what the operation reports and the destination tree it leaves.
\<close>

definition organize_roms_by_genre ::
  "(match_result list list \<Rightarrow> match_result list list) \<Rightarrow>
   (string pyset \<Rightarrow> string list) \<Rightarrow> (string \<Rightarrow> string \<Rightarrow> rat) \<Rightarrow> config \<Rightarrow>
   (path \<rightharpoonup> content) \<Rightarrow> bool \<Rightarrow> xml_source \<Rightarrow> path list \<Rightarrow> int \<Rightarrow> tree \<Rightarrow> outcome \<times> tree" where
  "organize_roms_by_genre sched iter ratio cfg read_rom report_ok src rom_files max_workers t =
     (let (rom_metadata, xml_names) = enhanced_xml_parsing iter report_ok src
      in if rom_metadata = [] then (NoMetadata, t)
         else if rom_files = [] then (NoRomFiles, t)
         else (case matching_phase sched iter ratio rom_files rom_metadata xml_names max_workers of
                 Inl e \<Rightarrow> (Raised e, t)
               | Inr all_results \<Rightarrow>
                   (let st = copy_roms_sequentially cfg read_rom all_results t
                    in (Organized (stats st) (matched_details st) (unmatched_roms st), dest st))))"

section \<open>The specification's wording, for comparison\<close>

text \<open>
  The specification describes the genre of a catalog record as the first slash-separated
  segment of the genre field, and the sanitised genre as the genre without the characters
  that are illegal in a path component.
\<close>

definition spec_genre :: "string \<Rightarrow> string" where
  "spec_genre field = first_segment field"

definition spec_sanitize :: "string \<Rightarrow> string" where
  "spec_sanitize g = filter (\<lambda>c. c \<notin> set illegal_chars) g"

section \<open>Instances for the examples\<close>

text \<open>A similarity ratio that finds nothing alike, and a scheduler that keeps the order.\<close>

definition never_similar :: "string \<Rightarrow> string \<Rightarrow> rat" where
  "never_similar a b = 0"

definition in_order :: "'a list \<Rightarrow> 'a list" where
  "in_order xs = xs"

text \<open>
  A small collection and destination: two ROM files, two results for them, and a tree in
  which the first one already has a file.
\<close>

definition sample_roms :: "path \<rightharpoonup> content" where
  "sample_roms = [[''output'', ''ab.nes''] \<mapsto> ''AB'', [''output'', ''cd.nes''] \<mapsto> ''CD'']"


definition unmatched_sample :: match_result where
  "unmatched_sample =
     \<lparr>rom_file = [''output'', ''cd.nes''], matched = False, result_genre = ''Unknown'',
      xml_name = None, result_full_genre = ''Unknown''\<rparr>"



text \<open>A result whose genre has a character that is legal in a path and is not kept.\<close>

definition ampersand_result :: match_result where
  "ampersand_result =
     \<lparr>rom_file = [''output'', ''ab.nes''], matched = True, result_genre = ''Action & Adventure'',
      xml_name = Some ''Ab'', result_full_genre = ''Action & Adventure''\<rparr>"

text \<open>A catalog entry and two small dictionaries with it.\<close>

definition zelda_entry :: entry where
  "zelda_entry =
     \<lparr>original_name = ''Zelda II (USA)'', clean_name = ''Zelda II'',
      genre = ''Adventure'', full_genre = ''Adventure/RPG''\<rparr>"

text \<open>The catalog record and the ROM file of the specification's example.\<close>

definition sonic_game :: game where
  "sonic_game =
     \<lparr>name_attrib = Some ''Sonic the Hedgehog (USA)'', name_elem = None,
      genre_elem = Some (Some ''Action/Platformer'')\<rparr>"

definition sonic_entry :: entry where
  "sonic_entry =
     \<lparr>original_name = ''Sonic the Hedgehog (USA)'', clean_name = ''Sonic the Hedgehog'',
      genre = ''Action'', full_genre = ''Action/Platformer''\<rparr>"

definition sonic_rom :: path where
  "sonic_rom = [''output'', ''Sonic the Hedgehog.nes'']"

text \<open>A record without a genre, and one whose genre has spaces around the slash.\<close>

definition plain_game :: game where
  "plain_game = \<lparr>name_attrib = Some ''Qix'', name_elem = None, genre_elem = None\<rparr>"

definition spaced_game :: game where
  "spaced_game =
     \<lparr>name_attrib = Some ''Metroid'', name_elem = None,
      genre_elem = Some (Some ''Action / Adventure'')\<rparr>"

section \<open>Invariants used in the proofs\<close>

text \<open>
  The final loop of the variation generator: the list built so far has no duplicates, holds
  what \<^verbatim>\<open>seen\<close> holds, and has no entry shorter than two characters.
\<close>

definition final_inv :: "string list \<times> string pyset \<Rightarrow> bool" where
  "final_inv st =
     (distinct (fst st) \<and> set (fst st) = set (snd st) \<and> (\<forall>x\<in>set (fst st). 2 \<le> length x))"

text \<open>The loop of the loader: every stored entry is named in the list of names.\<close>

definition loader_inv :: "(string, entry) dict \<times> string list \<Rightarrow> bool" where
  "loader_inv st = (\<forall>(k, e) \<in> set (fst st). original_name e \<in> set (snd st))"




text \<open>Every entry of a dictionary has the genre and the full genre of a game of \<open>G\<close>.\<close>

definition genres_from :: "game set \<Rightarrow> (string, entry) dict \<Rightarrow> bool" where
  "genres_from G md =
     (\<forall>(k, e) \<in> set md. \<exists>g \<in> G. genre e = game_genre g \<and> full_genre e = game_full_genre g)"


section \<open>Facts about strings and sets\<close>


lemma set_set_add [simp]: "set (set_add x xs) = insert x (set xs)"
  by (auto simp: set_add_def)

lemma set_set_update [simp]: "set (set_update xs ys) = set xs \<union> set ys"
  unfolding set_update_def by (induction ys arbitrary: xs) auto

lemma distinct_set_add: "distinct xs \<Longrightarrow> distinct (set_add x xs)"
  by (auto simp: set_add_def)

lemma collapse_ws_Nil [simp]: "collapse_ws s = [] \<longleftrightarrow> s = []"
  by (cases s) auto

lemma length_collapse_ws:
  assumes "2 \<le> length s" "\<not> isspace (hd s)"
  shows "2 \<le> length (collapse_ws s)"
proof -
  obtain c cs where s: "s = c # cs" and cs: "cs \<noteq> []"
    using assms(1) by (cases s; cases "tl s") auto
  have "collapse_ws s = c # collapse_ws cs"
    using assms(2) s by simp
  moreover have "collapse_ws cs \<noteq> []"
    using cs by simp
  ultimately show ?thesis
    by (cases "collapse_ws cs") auto
qed

lemma last_dropWhile: "dropWhile P xs \<noteq> [] \<Longrightarrow> last (dropWhile P xs) = last xs"
  by (induction xs) (auto split: if_splits)

lemma hd_strip: "strip s \<noteq> [] \<Longrightarrow> \<not> isspace (hd (strip s))"
proof -
  assume ne: "strip s \<noteq> []"
  let ?t = "dropWhile isspace s"
  let ?u = "dropWhile isspace (rev ?t)"
  have u: "?u \<noteq> []" using ne by (simp add: strip_def)
  have t: "?t \<noteq> []"
    using u by (metis dropWhile.simps(1) rev.simps(1))
  have "hd (strip s) = last ?u" using u by (simp add: strip_def hd_rev)
  also have "\<dots> = last (rev ?t)" using u by (rule last_dropWhile)
  also have "\<dots> = hd ?t" using t by (simp add: last_rev)
  finally show ?thesis using hd_dropWhile [OF t] by simp
qed

lemma of_char_lower_char:
  "(of_char (lower_char c) :: nat) =
     (let n = of_char c in if (65 \<le> n \<and> n \<le> 90) \<or> (192 \<le> n \<and> n \<le> 222 \<and> n \<noteq> 215) then n + 32 else n)"
  by (auto simp: lower_char_def Let_def)

lemma isspace_lower_char [simp]: "isspace (lower_char c) = isspace c"
  unfolding isspace_def of_char_lower_char by (simp add: Let_def)

lemma dropWhile_isspace_lower:
  "dropWhile isspace (map lower_char s) = map lower_char (dropWhile isspace s)"
  by (induction s) auto

lemma strip_lower: "strip (lower s) = lower (strip s)"
  by (simp add: strip_def lower_def rev_map dropWhile_isspace_lower)

lemma lower_char_space [simp]: "lower_char (CHR '' '') = CHR '' ''"
  by (simp add: lower_char_def)

lemma collapse_ws_lower: "collapse_ws (lower s) = lower (collapse_ws s)"
  unfolding lower_def
  by (induction s rule: collapse_ws.induct) (auto simp: dropWhile_isspace_lower)

lemma length_lower [simp]: "length (lower s) = length s"
  by (simp add: lower_def)

section \<open>The variation generator: what it returns\<close>

lemma strip_Nil [simp]: "strip [] = []"
  by (simp add: strip_def)

lemma length_clean:
  assumes "1 < length (strip v)"
  shows "2 \<le> length (collapse_ws (strip v))"
proof -
  have "strip v \<noteq> []" using assms by auto
  then show ?thesis using assms by (intro length_collapse_ws hd_strip) auto
qed

lemma final_step_cases:
  "final_step v (f, seen) = (f, seen) \<and> (1 < length (strip v) \<longrightarrow> collapse_ws (strip v) \<in> set seen)
   \<or> 1 < length (strip v) \<and> collapse_ws (strip v) \<notin> set seen \<and>
     final_step v (f, seen) = (f @ [collapse_ws (strip v)], set_add (collapse_ws (strip v)) seen)"
  by (cases "v = []") (auto simp: final_step_def Let_def)

lemma final_step_inv: "final_inv st \<Longrightarrow> final_inv (final_step v st)"
  using final_step_cases [of v "fst st" "snd st"] length_clean [of v]
  by (auto simp: final_inv_def)

lemma final_step_mono: "set (fst st) \<subseteq> set (fst (final_step v st))"
  using final_step_cases [of v "fst st" "snd st"] by auto

lemma final_step_adds:
  "final_inv st \<Longrightarrow> 1 < length (strip v) \<Longrightarrow> collapse_ws (strip v) \<in> set (fst (final_step v st))"
  using final_step_cases [of v "fst st" "snd st"] by (auto simp: final_inv_def)

lemma final_loop_inv: "final_inv st \<Longrightarrow> final_inv (fold final_step vs st)"
  by (induction vs arbitrary: st) (auto simp: final_step_inv)

lemma final_loop_mono: "set (fst st) \<subseteq> set (fst (fold final_step vs st))"
proof (induction vs arbitrary: st)
  case Nil
  show ?case by simp
next
  case (Cons v vs)
  have "set (fst st) \<subseteq> set (fst (final_step v st))" by (rule final_step_mono)
  also have "\<dots> \<subseteq> set (fst (fold final_step vs (final_step v st)))" by (rule Cons.IH)
  finally show ?case by simp
qed

lemma final_loop_adds:
  "final_inv st \<Longrightarrow> v \<in> set vs \<Longrightarrow> 1 < length (strip v) \<Longrightarrow>
   collapse_ws (strip v) \<in> set (fst (fold final_step vs st))"
proof (induction vs arbitrary: st)
  case Nil
  then show ?case by simp
next
  case (Cons w vs)
  show ?case
  proof (cases "v = w")
    case True
    then have "collapse_ws (strip v) \<in> set (fst (final_step w st))"
      using Cons.prems final_step_adds by blast
    then show ?thesis using final_loop_mono [of "final_step w st" vs] by auto
  next
    case False
    then have "v \<in> set vs" using Cons.prems by simp
    then show ?thesis using Cons.IH [OF final_step_inv [OF Cons.prems(1)]] Cons.prems(3) by simp
  qed
qed


lemma base_pattern_step_mono: "set (fst st) \<subseteq> set (fst (base_pattern_step rm st))"
  by (cases st) (auto simp: base_pattern_step_def Let_def)

lemma base_pattern_loop_mono: "set (fst st) \<subseteq> set (fst (fold base_pattern_step ps st))"
proof (induction ps arbitrary: st)
  case Nil
  show ?case by simp
next
  case (Cons p ps)
  have "set (fst st) \<subseteq> set (fst (base_pattern_step p st))" by (rule base_pattern_step_mono)
  also have "\<dots> \<subseteq> set (fst (fold base_pattern_step ps (base_pattern_step p st)))" by (rule Cons.IH)
  finally show ?case by simp
qed

lemma punct_loop_mono: "set vs \<subseteq> set (fold punct_step xs vs)"
proof (induction xs arbitrary: vs)
  case Nil
  show ?case by simp
next
  case (Cons x xs)
  have "set vs \<subseteq> set (punct_step x vs)" by (auto simp: punct_step_def Let_def)
  also have "\<dots> \<subseteq> set (fold punct_step xs (punct_step x vs))" by (rule Cons.IH)
  finally show ?case by simp
qed

lemma all_variations_seed:
  "strip name \<in> set (all_variations iter name)" "lower (strip name) \<in> set (all_variations iter name)"
proof -
  let ?o = "strip name"
  let ?v0 = "set_add (lower ?o) (set_add ?o [])"
  let ?v1 = "fst (fold base_pattern_step base_patterns (?v0, ?o))"
  let ?v2 = "set_update ?v1 (concat (map separator_variants (iter ?v1)))"
  let ?v3 = "set_update ?v2 (concat (map article_variants (iter ?v2)))"
  let ?v4 = "fold punct_step (iter ?v3) ?v3"
  let ?v5 = "set_update ?v4 (concat (map number_variants (iter ?v4)))"
  let ?v6 = "set_update ?v5 (concat (map abbrev_variants (iter ?v5)))"
  have "set ?v0 \<subseteq> set ?v1" using base_pattern_loop_mono [of "(?v0, ?o)"] by simp
  also have "\<dots> \<subseteq> set ?v3" by auto
  also have "\<dots> \<subseteq> set ?v4" by (rule punct_loop_mono)
  also have "\<dots> \<subseteq> set ?v6" by auto
  finally have "set ?v0 \<subseteq> set (all_variations iter name)"
    by (simp add: all_variations_def Let_def)
  then show "strip name \<in> set (all_variations iter name)"
    "lower (strip name) \<in> set (all_variations iter name)" by auto
qed

lemma strip_strip [simp]: "strip (strip s) = strip s"
proof (cases "strip s = []")
  case True
  then show ?thesis by simp
next
  case False
  have l: "\<not> isspace (last (strip s))"
    using False by (simp add: strip_def last_rev hd_dropWhile)
  have h: "\<not> isspace (hd (strip s))" using False by (rule hd_strip)
  have 1: "dropWhile isspace (strip s) = strip s"
    using False h by (cases "strip s") auto
  have 2: "dropWhile isspace (rev (strip s)) = rev (strip s)"
    using False l by (cases "rev (strip s)") (auto simp: hd_rev [symmetric])
  show ?thesis
    unfolding strip_def [of "strip s"] 1 2 by simp
qed

lemma variations_props:
  assumes "keeps_elements iter"
  shows "distinct (create_ultra_aggressive_variations iter s)
    \<and> (\<forall>v \<in> set (create_ultra_aggressive_variations iter s). 2 \<le> length v)
    \<and> (1 < length (strip s) \<longrightarrow>
         collapse_ws (strip s) \<in> set (create_ultra_aggressive_variations iter s)
       \<and> lower (collapse_ws (strip s)) \<in> set (create_ultra_aggressive_variations iter s)
       \<and> create_ultra_aggressive_variations iter s \<noteq> [])"
proof -
  let ?vs = "iter (all_variations iter s)"
  let ?r = "fold final_step ?vs ([], [])"
  have r: "create_ultra_aggressive_variations iter s = fst ?r"
    by (simp add: create_ultra_aggressive_variations_def)
  have inv0: "final_inv ([], [])" by (simp add: final_inv_def)
  then have inv: "final_inv ?r" by (rule final_loop_inv)
  have mem: "strip s \<in> set ?vs" "lower (strip s) \<in> set ?vs"
    using assms all_variations_seed [of s iter] by (simp_all add: keeps_elements_def)
  have seeded: "collapse_ws (strip s) \<in> set (fst ?r) \<and> lower (collapse_ws (strip s)) \<in> set (fst ?r)"
    if "1 < length (strip s)"
  proof
    show "collapse_ws (strip s) \<in> set (fst ?r)"
      using final_loop_adds [OF inv0 mem(1)] that by simp
    have "1 < length (strip (lower (strip s)))"
      using that by (simp add: strip_lower)
    from final_loop_adds [OF inv0 mem(2) this]
    show "lower (collapse_ws (strip s)) \<in> set (fst ?r)"
      by (simp add: strip_lower collapse_ws_lower)
  qed
  show ?thesis
    unfolding r using inv seeded by (auto simp: final_inv_def)
qed





section \<open>The batches of the scheduler\<close>


lemma ceil_div_upper:
  assumes "0 < bs"
  shows "(n::nat) \<le> (n + bs - 1) div bs * bs"
proof -
  let ?q = "(n + bs - 1) div bs"
  have "(n + bs - 1) mod bs < bs" using assms by simp
  moreover have "?q * bs + (n + bs - 1) mod bs = n + bs - 1" by simp
  ultimately show ?thesis by arith
qed

lemma ceil_div_lower:
  assumes "0 < bs" "0 < (n::nat)"
  shows "((n + bs - 1) div bs - 1) * bs < n"
proof -
  let ?q = "(n + bs - 1) div bs"
  have "?q * bs \<le> n + bs - 1" by simp
  moreover have "(?q - 1) * bs = ?q * bs - bs" by (simp add: diff_mult_distrib)
  ultimately show ?thesis using assms by arith
qed

lemma ceil_div_pos:
  assumes "0 < bs" "0 < (n::nat)"
  shows "0 < (n + bs - 1) div bs"
  using ceil_div_upper [OF assms(1), of n] assms(2) by (cases "(n + bs - 1) div bs") auto

lemma concat_chunks: "concat (map (\<lambda>k. take bs (drop (k * bs) xs)) [0..<m]) = take (m * bs) xs"
proof (induction m)
  case 0
  show ?case by simp
next
  case (Suc m)
  have "take (Suc m * bs) xs = take (m * bs + bs) xs" by (simp add: add.commute)
  also have "\<dots> = take (m * bs) xs @ take bs (drop (m * bs) xs)" by (rule take_add)
  finally show ?case using Suc.IH by simp
qed

lemma ceil_div_exact:
  assumes "0 < bs"
  shows "(w * bs + bs - 1) div bs = (w::nat)"
proof -
  have "w * bs + bs - 1 = w * bs + (bs - 1)" using assms by simp
  also have "\<dots> div bs = w + (bs - 1) div bs"
    using assms by (simp only: div_mult_self3)
  also have "(bs - 1) div bs = 0" using assms by simp
  finally show ?thesis by simp
qed

lemma batch_size_of_pos: "0 < batch_size_of n w"
  by (simp add: batch_size_of_def)

lemma rom_batches_unfold:
  "rom_batches bs xs = map (\<lambda>k. take bs (drop (k * bs) xs)) [0..<(length xs + bs - 1) div bs]"
  by (simp add: rom_batches_def py_range_def comp_def)

lemma concat_rom_batches:
  assumes "0 < bs"
  shows "concat (rom_batches bs xs) = xs"
  using ceil_div_upper [OF assms, of "length xs"]
  by (simp add: rom_batches_unfold concat_chunks)

lemma length_rom_batches: "length (rom_batches bs xs) = (length xs + bs - 1) div bs"
  by (simp add: rom_batches_unfold)

lemma nth_rom_batches:
  assumes "i < length (rom_batches bs xs)"
  shows "rom_batches bs xs ! i = take bs (drop (i * bs) xs)"
  using assms by (simp add: rom_batches_unfold)

lemma length_full_batch:
  assumes "0 < bs" "Suc i < length (rom_batches bs xs)"
  shows "length (rom_batches bs xs ! i) = bs"
proof -
  let ?m = "(length xs + bs - 1) div bs"
  have m: "Suc i < ?m" using assms(2) by (simp add: length_rom_batches)
  then have "Suc i \<le> ?m - 1" by simp
  then have "Suc i * bs \<le> (?m - 1) * bs" by (rule mult_le_mono1)
  moreover have "0 < length xs"
  proof (rule ccontr)
    assume "\<not> 0 < length xs"
    then have "?m = (bs - 1) div bs" by simp
    also have "\<dots> = 0" using assms(1) by simp
    finally show False using m by simp
  qed
  ultimately have "Suc i * bs < length xs"
    using ceil_div_lower [OF assms(1), of "length xs"] by simp
  then have "bs \<le> length xs - i * bs" by simp
  moreover have "i < length (rom_batches bs xs)" using assms(2) by simp
  ultimately show ?thesis by (simp add: nth_rom_batches)
qed

lemma length_last_batch:
  assumes "0 < bs" "rom_batches bs xs \<noteq> []"
  shows "length (last (rom_batches bs xs)) = length xs - (length (rom_batches bs xs) - 1) * bs"
    and "1 \<le> length (last (rom_batches bs xs))"
    and "length (last (rom_batches bs xs)) \<le> bs"
proof -
  let ?m = "length (rom_batches bs xs)"
  have m: "?m = (length xs + bs - 1) div bs" by (rule length_rom_batches)
  have pos: "0 < ?m" using assms(2) by simp
  have n: "0 < length xs"
  proof (rule ccontr)
    assume "\<not> 0 < length xs"
    then have "?m = (bs - 1) div bs" unfolding m by simp
    also have "\<dots> = 0" using assms(1) by simp
    finally show False using pos by simp
  qed
  have "last (rom_batches bs xs) = rom_batches bs xs ! (?m - 1)"
    using assms(2) by (rule last_conv_nth)
  also have "\<dots> = take bs (drop ((?m - 1) * bs) xs)"
    using pos by (intro nth_rom_batches) simp
  finally have l: "length (last (rom_batches bs xs)) = min (length xs - (?m - 1) * bs) bs"
    by simp
  have lo: "(?m - 1) * bs < length xs"
    unfolding m by (rule ceil_div_lower [OF assms(1) n])
  have "length xs \<le> ?m * bs" unfolding m by (rule ceil_div_upper [OF assms(1)])
  also have "?m * bs = (?m - 1) * bs + bs" using pos by (cases ?m) simp_all
  finally have hi: "length xs - (?m - 1) * bs \<le> bs" by simp
  show "length (last (rom_batches bs xs)) = length xs - (?m - 1) * bs"
    using l hi by simp
  show "1 \<le> length (last (rom_batches bs xs))" using l lo assms(1) by simp
  show "length (last (rom_batches bs xs)) \<le> bs" using l by simp
qed

lemma batch_size_of_dvd:
  assumes "0 < w" "0 < n" "w dvd int n"
  shows "n = nat w * batch_size_of n w"
proof -
  obtain k where k: "int n = w * k" using assms(3) by (auto simp: dvd_def)
  have "0 < w * k" using assms(2) k by linarith
  then have kpos: "0 < k" using assms(1) by (simp add: zero_less_mult_iff)
  have "int n div w = k" unfolding k using assms(1) by simp
  then have "batch_size_of n w = nat k" using kpos by (simp add: batch_size_of_def)
  then have "int (nat w * batch_size_of n w) = int n"
    using k kpos assms(1) by simp
  then show ?thesis by linarith
qed

lemma batches_count_dvd:
  assumes "0 < w" "0 < length xs" "w dvd int (length xs)"
  shows "length (rom_batches (batch_size_of (length xs) w) xs) = nat w"
proof -
  let ?bs = "batch_size_of (length xs) w"
  have "length xs = nat w * ?bs" by (rule batch_size_of_dvd [OF assms])
  then have "(length xs + ?bs - 1) div ?bs = (nat w * ?bs + ?bs - 1) div ?bs" by simp
  also have "\<dots> = nat w" by (rule ceil_div_exact [OF batch_size_of_pos])
  finally show ?thesis by (simp add: length_rom_batches)
qed


text \<open>
  Claim C4, as the code has it. For a worker count other than zero the list of ROM files is
  cut, in order, into batches of \<open>batch_size = max(1, total div worker_count)\<close> files: the
  batches put together give the list back, batch \<open>i\<close> starts at file \<open>i * batch_size\<close>, every
  batch but the last has \<open>batch_size\<close> files and the last one has the files that are left,
  at least one and at most \<open>batch_size\<close>. So there are \<open>ceil(total / batch_size)\<close> batches:
  as many as workers when the positive worker count divides the total, and possibly more
  otherwise.
\<close>

theorem batches_partition:
  assumes "max_workers \<noteq> 0"
  shows "(let batch_size = batch_size_of (length rom_files) max_workers;
              batches = rom_batches batch_size rom_files
          in int batch_size = max 1 (int (length rom_files) div max_workers)
           \<and> concat batches = rom_files
           \<and> length batches = (length rom_files + batch_size - 1) div batch_size
           \<and> (\<forall>i. i < length batches \<longrightarrow>
                 batches ! i = take batch_size (drop (i * batch_size) rom_files))
           \<and> (\<forall>i. Suc i < length batches \<longrightarrow> length (batches ! i) = batch_size)
           \<and> (rom_files \<noteq> [] \<longrightarrow>
                 batches \<noteq> [] \<and> 1 \<le> length (last batches) \<and> length (last batches) \<le> batch_size)
           \<and> (0 < max_workers \<and> rom_files \<noteq> [] \<and> max_workers dvd int (length rom_files) \<longrightarrow>
                 length batches = nat max_workers))"
proof -
  let ?bs = "batch_size_of (length rom_files) max_workers"
  let ?batches = "rom_batches ?bs rom_files"
  have pos: "0 < ?bs" by (rule batch_size_of_pos)
  have 1: "int ?bs = max 1 (int (length rom_files) div max_workers)"
    by (simp add: batch_size_of_def)
  have 2: "concat ?batches = rom_files" by (rule concat_rom_batches [OF pos])
  have 3: "length ?batches = (length rom_files + ?bs - 1) div ?bs" by (rule length_rom_batches)
  have 4: "\<forall>i. i < length ?batches \<longrightarrow> ?batches ! i = take ?bs (drop (i * ?bs) rom_files)"
    by (simp add: nth_rom_batches)
  have 5: "\<forall>i. Suc i < length ?batches \<longrightarrow> length (?batches ! i) = ?bs"
    using length_full_batch [OF pos] by blast
  have 6: "?batches \<noteq> [] \<and> 1 \<le> length (last ?batches) \<and> length (last ?batches) \<le> ?bs"
    if "rom_files \<noteq> []"
  proof -
    have "0 < length ?batches"
      unfolding 3 using that by (intro ceil_div_pos [OF pos]) simp
    then have "?batches \<noteq> []" by simp
    then show ?thesis using length_last_batch(2,3) [OF pos] by blast
  qed
  have 7: "length ?batches = nat max_workers"
    if "0 < max_workers \<and> rom_files \<noteq> [] \<and> max_workers dvd int (length rom_files)"
    using that by (intro batches_count_dvd) simp_all
  show ?thesis
    unfolding Let_def using 1 2 3 4 5 6 7 by blast
qed

text \<open>
  The theorem for ten ROM files, written \<open>a\<close> to \<open>j\<close>, and five workers: five batches
  of two files.
\<close>

theorem batches_partition_witness:
  "(5::int) \<noteq> 0 \<and> 0 < (5::int) \<and> ''abcdefghij'' \<noteq> [] \<and> (5::int) dvd int (length ''abcdefghij'')
   \<and> Suc 0 < length (rom_batches (batch_size_of (length ''abcdefghij'') 5) ''abcdefghij'')
   \<and> length (rom_batches (batch_size_of (length ''abcdefghij'') 5) ''abcdefghij'' ! 0)
       = batch_size_of (length ''abcdefghij'') 5
   \<and> concat (rom_batches (batch_size_of (length ''abcdefghij'') 5) ''abcdefghij'') = ''abcdefghij''
   \<and> length (rom_batches (batch_size_of (length ''abcdefghij'') 5) ''abcdefghij'') = nat 5"
proof -
  let ?b = "rom_batches (batch_size_of (length ''abcdefghij'') 5) ''abcdefghij''"
  have h: "(5::int) \<noteq> 0" by simp
  have d1: "0 < (5::int)" by simp
  have d2: "''abcdefghij'' \<noteq> []" by simp
  have d3: "(5::int) dvd int (length ''abcdefghij'')" by simp
  note t = batches_partition [OF h, of "''abcdefghij''", unfolded Let_def]
  from t d1 d2 d3 have n: "length ?b = nat 5"
    by blast
  then have s: "Suc 0 < length ?b"
    by simp
  with t have x: "length (?b ! 0) = batch_size_of (length ''abcdefghij'') 5"
    by blast
  from t have c: "concat ?b = ''abcdefghij''"
    by blast
  show ?thesis
    by (intro conjI h d1 d2 d3 s x c n)
qed

text \<open>Ten ROM files and three workers give four batches, the last one of a single file.\<close>

theorem batches_count_counterexample:
  "rom_batches (batch_size_of (length ''abcdefghij'') 3) ''abcdefghij''
     = [''abc'', ''def'', ''ghi'', ''j'']
   \<and> length (rom_batches (batch_size_of (length ''abcdefghij'') 3) ''abcdefghij'') \<noteq> nat 3"
  by code_simp


section \<open>The matching phase and the worker count\<close>


lemma mset_concat_sum: "mset (concat xss) = sum_mset (image_mset mset (mset xss))"
proof -
  have "mset (concat xss) = sum_list (map mset xss)" by (rule mset_concat)
  also have "\<dots> = sum_mset (mset (map mset xss))" by (rule sum_mset_sum_list [symmetric])
  finally show ?thesis by simp
qed

lemma mset_concat_perm:
  assumes "mset xss = mset yss"
  shows "mset (concat xss) = mset (concat yss)"
  unfolding mset_concat_sum assms ..

lemma process_batch_concat:
  "concat (map (\<lambda>batch. process_rom_batch_matching_only iter ratio batch metadata xml_names) batches)
     = process_rom_batch_matching_only iter ratio (concat batches) metadata xml_names"
  by (simp add: process_rom_batch_matching_only_def map_concat)

lemma matching_phase_results:
  assumes "completion_order sched" "0 < max_workers"
  shows "\<exists>results. matching_phase sched iter ratio rom_files metadata xml_names max_workers
             = Inr results
           \<and> mset results
             = mset (process_rom_batch_matching_only iter ratio rom_files metadata xml_names)"
proof -
  let ?bs = "batch_size_of (length rom_files) max_workers"
  let ?per_batch = "map (\<lambda>batch.
      process_rom_batch_matching_only iter ratio batch metadata xml_names) (rom_batches ?bs rom_files)"
  have r: "matching_phase sched iter ratio rom_files metadata xml_names max_workers
      = Inr (concat (sched ?per_batch))"
    using assms(2) by (simp add: matching_phase_def Let_def)
  have "mset (sched ?per_batch) = mset ?per_batch"
    using assms(1) by (simp add: completion_order_def)
  then have "mset (concat (sched ?per_batch)) = mset (concat ?per_batch)"
    by (rule mset_concat_perm)
  also have "concat ?per_batch
      = process_rom_batch_matching_only iter ratio (concat (rom_batches ?bs rom_files)) metadata xml_names"
    by (rule process_batch_concat)
  also have "concat (rom_batches ?bs rom_files) = rom_files"
    by (rule concat_rom_batches [OF batch_size_of_pos])
  finally show ?thesis using r by blast
qed

text \<open>
  Claim C2. With the catalog and the list of ROM files fixed, the matching phase returns a
  result list for every positive worker count and every order in which the batches
  complete; two such runs, with worker counts \<open>w\<close> and \<open>w'\<close> (say 1 and N), hold the same
  results up to their order, so the same set of pairs of ROM file and matched genre.
\<close>

theorem matching_independent_of_worker_count:
  assumes "completion_order sched" "completion_order sched'" "0 < w" "0 < w'"
  shows "\<exists>results results'.
           matching_phase sched iter ratio rom_files metadata xml_names w = Inr results
         \<and> matching_phase sched' iter ratio rom_files metadata xml_names w' = Inr results'
         \<and> mset results = mset results'
         \<and> rom_genre_pairs results = rom_genre_pairs results'"
proof -
  let ?seq = "process_rom_batch_matching_only iter ratio rom_files metadata xml_names"
  obtain rs where rs: "matching_phase sched iter ratio rom_files metadata xml_names w = Inr rs"
      "mset rs = mset ?seq"
    using matching_phase_results [OF assms(1,3)] by blast
  obtain rs' where rs': "matching_phase sched' iter ratio rom_files metadata xml_names w' = Inr rs'"
      "mset rs' = mset ?seq"
    using matching_phase_results [OF assms(2,4)] by blast
  have m: "mset rs = mset rs'" using rs(2) rs'(2) by simp
  then have "set rs = set rs'" by (rule mset_eq_setD)
  then have "rom_genre_pairs rs = rom_genre_pairs rs'"
    by (simp add: rom_genre_pairs_def)
  with rs(1) rs'(1) m show ?thesis by blast
qed

text \<open>
  The theorem for two ROM files, one worker reading its batches in order and two workers
  whose batches complete in reverse order.
\<close>

theorem matching_independent_of_worker_count_witness:
  "completion_order (in_order :: match_result list list \<Rightarrow> _) \<and> completion_order (rev :: match_result list list \<Rightarrow> _)
   \<and> (0::int) < 1 \<and> (0::int) < 2
   \<and> (\<exists>results results'.
         matching_phase in_order insertion_order never_similar [[''ab.nes''], [''cd.nes'']] [] [] 1 = Inr results
       \<and> matching_phase rev insertion_order never_similar [[''ab.nes''], [''cd.nes'']] [] [] 2 = Inr results'
       \<and> rom_genre_pairs results = rom_genre_pairs results')"
proof -
  have a: "completion_order (in_order :: match_result list list \<Rightarrow> _)"
    by (simp add: completion_order_def in_order_def)
  have b: "completion_order (rev :: match_result list list \<Rightarrow> _)"
    by (simp add: completion_order_def)
  have c: "(0::int) < 1" by simp
  have d: "(0::int) < 2" by simp
  from matching_independent_of_worker_count [OF a b c d]
  have "\<exists>results results'.
         matching_phase in_order insertion_order never_similar [[''ab.nes''], [''cd.nes'']] [] [] 1 = Inr results
       \<and> matching_phase rev insertion_order never_similar [[''ab.nes''], [''cd.nes'']] [] [] 2 = Inr results'
       \<and> rom_genre_pairs results = rom_genre_pairs results'"
    by blast
  then show ?thesis
    by (intro conjI a b c d)
qed


section \<open>A catalog that cannot be parsed\<close>

text \<open>
  Claim C7. When the catalog cannot be parsed, \<^const>\<open>enhanced_xml_parsing\<close> returns the
  empty dictionary and the empty name list, and \<^const>\<open>organize_roms_by_genre\<close> returns at its
  first check: it reports that there is no metadata and leaves the destination tree as it
  was, whatever the ROM files and the worker count are (matching and copying are not
  reached).
\<close>

theorem parse_failure_gives_empty_index_and_early_exit:
  "enhanced_xml_parsing iter report_ok ParseError = ([], [])
   \<and> organize_roms_by_genre sched iter ratio cfg read_rom report_ok ParseError rom_files max_workers t
       = (NoMetadata, t)"
  by (simp add: enhanced_xml_parsing_def organize_roms_by_genre_def)


section \<open>What the loader stores\<close>

lemma in_set_update:
  "(k', v') \<in> set (AList.update k v al) \<Longrightarrow> (k', v') = (k, v) \<or> (k', v') \<in> set al"
  by (induction al) (auto split: if_splits)

lemma store_variation_values:
  "(k, e') \<in> set (store_variation e v md) \<Longrightarrow> e' = e \<or> (k, e') \<in> set md"
  by (auto simp: store_variation_def dest: in_set_update split: if_splits)

lemma store_loop_values:
  "(k, e') \<in> set (fold (store_variation e) vs md) \<Longrightarrow> e' = e \<or> (k, e') \<in> set md"
proof (induction vs arbitrary: md)
  case Nil
  then show ?case by simp
next
  case (Cons v vs)
  then have "e' = e \<or> (k, e') \<in> set (store_variation e v md)" by simp
  then show ?case using store_variation_values by blast
qed

lemma map_of_store_variation:
  "map_of (store_variation e v md) k =
     (if k = v \<and> v \<noteq> [] \<and> 1 < length (strip v) then Some e else map_of md k)"
  by (simp add: store_variation_def update_conv')

lemma map_of_store_loop:
  "map_of (fold (store_variation e) vs md) k =
     (if k \<in> set vs \<and> k \<noteq> [] \<and> 1 < length (strip k) then Some e else map_of md k)"
  by (induction vs arbitrary: md) (auto simp: map_of_store_variation)

text \<open>The round of the loop for a game that has a name.\<close>

lemma process_game_named:
  assumes "game_name g = Some raw" "raw \<noteq> []"
  shows "\<exists>vs. process_game iter g (md, names) =
      (fold (store_variation \<lparr>original_name = strip raw,
           clean_name = fold region_step region_patterns (strip raw),
           genre = game_genre g, full_genre = game_full_genre g\<rparr>) vs md, names @ [strip raw])
    \<and> (fold region_step region_patterns (strip raw) \<noteq> []
         \<and> fold region_step region_patterns (strip raw) \<noteq> strip raw
       \<longrightarrow> fold region_step region_patterns (strip raw) \<in> set vs)"
proof -
  let ?name = "strip raw"
  let ?clean = "fold region_step region_patterns ?name"
  let ?vs = "take 50 (if ?clean \<noteq> [] \<and> ?clean \<noteq> ?name
      then ?clean # lower ?clean # create_ultra_aggressive_variations iter ?name
      else create_ultra_aggressive_variations iter ?name)"
  have "process_game iter g (md, names) =
      (fold (store_variation \<lparr>original_name = ?name, clean_name = ?clean,
           genre = game_genre g, full_genre = game_full_genre g\<rparr>) ?vs md, names @ [?name])"
    using assms by (simp add: process_game_def Let_def)
  moreover have "?clean \<in> set ?vs" if "?clean \<noteq> [] \<and> ?clean \<noteq> ?name"
    using that by (simp add: take_Cons')
  ultimately show ?thesis by blast
qed

lemma process_game_unnamed:
  assumes "game_name g = None \<or> game_name g = Some []"
  shows "process_game iter g st = st"
  using assms by (cases st) (auto simp: process_game_def)

lemma game_name_cases:
  obtains "game_name g = None \<or> game_name g = Some []"
  | raw where "game_name g = Some raw" "raw \<noteq> []"
  by (cases "game_name g") auto

lemma process_game_inv:
  assumes "loader_inv st"
  shows "loader_inv (process_game iter g st)"
proof (cases g rule: game_name_cases)
  case 1
  then show ?thesis using assms by (simp add: process_game_unnamed)
next
  case (2 raw)
  obtain md names where st: "st = (md, names)" by (cases st)
  from process_game_named [OF 2, of iter md names]
  obtain e vs where r: "process_game iter g st = (fold (store_variation e) vs md, names @ [strip raw])"
    and e: "original_name e = strip raw"
    unfolding st by fastforce
  have "loader_inv (fold (store_variation e) vs md, names @ [strip raw])"
    using assms st e by (auto simp: loader_inv_def dest!: store_loop_values)
  then show ?thesis
    unfolding r .
qed

lemma loader_loop_inv: "loader_inv st \<Longrightarrow> loader_inv (fold (process_game iter) games st)"
  by (induction games arbitrary: st) (simp_all add: process_game_inv)

lemma process_game_genres:
  assumes "genres_from G (fst st)" "g \<in> G"
  shows "genres_from G (fst (process_game iter g st))"
proof (cases g rule: game_name_cases)
  case 1
  then show ?thesis using assms by (simp add: process_game_unnamed)
next
  case (2 raw)
  obtain md names where st: "st = (md, names)" by (cases st)
  from process_game_named [OF 2, of iter md names]
  obtain e vs where r: "process_game iter g st = (fold (store_variation e) vs md, names @ [strip raw])"
    and e: "genre e = game_genre g" "full_genre e = game_full_genre g"
    unfolding st by fastforce
  have "genres_from G (fold (store_variation e) vs md)"
    using assms st e by (auto simp: genres_from_def dest!: store_loop_values)
  then show ?thesis
    unfolding r by simp
qed

lemma loader_loop_genres:
  "genres_from G (fst st) \<Longrightarrow> set games \<subseteq> G \<Longrightarrow>
   genres_from G (fst (fold (process_game iter) games st))"
  by (induction games arbitrary: st) (simp_all add: process_game_genres)

text \<open>The index of a catalog with a single named game.\<close>

lemma single_game_index:
  assumes "game_name g = Some raw" "raw \<noteq> []"
    "e = \<lparr>original_name = strip raw, clean_name = fold region_step region_patterns (strip raw),
          genre = game_genre g, full_genre = game_full_genre g\<rparr>"
  shows "\<forall>(k, e') \<in> set (fst (enhanced_xml_parsing iter True (Document [g]))). e' = e"
    and "snd (enhanced_xml_parsing iter True (Document [g])) = [strip raw]"
    and "clean_name e \<noteq> [] \<Longrightarrow> clean_name e \<noteq> strip raw \<Longrightarrow> 1 < length (strip (clean_name e)) \<Longrightarrow>
         map_of (fst (enhanced_xml_parsing iter True (Document [g]))) (clean_name e) = Some e"
proof -
  from process_game_named [OF assms(1,2), of iter "[]" "[]"]
  obtain vs where r: "process_game iter g ([], []) = (fold (store_variation e) vs [], [strip raw])"
    and c: "clean_name e \<noteq> [] \<and> clean_name e \<noteq> strip raw \<longrightarrow> clean_name e \<in> set vs"
    unfolding assms(3) by auto
  have idx: "enhanced_xml_parsing iter True (Document [g]) = (fold (store_variation e) vs [], [strip raw])"
    by (simp add: enhanced_xml_parsing_def r)
  show "\<forall>(k, e') \<in> set (fst (enhanced_xml_parsing iter True (Document [g]))). e' = e"
    unfolding idx by (auto dest: store_loop_values)
  show "snd (enhanced_xml_parsing iter True (Document [g])) = [strip raw]"
    unfolding idx by simp
  show "map_of (fst (enhanced_xml_parsing iter True (Document [g]))) (clean_name e) = Some e"
    if "clean_name e \<noteq> []" "clean_name e \<noteq> strip raw" "1 < length (strip (clean_name e))"
    unfolding idx using that c by (simp add: map_of_store_loop)
qed

text \<open>The example catalog, evaluated.\<close>

lemma sonic_name: "game_name sonic_game = Some ''Sonic the Hedgehog (USA)''"
  by (simp add: game_name_def sonic_game_def)

lemma sonic_strip: "strip ''Sonic the Hedgehog (USA)'' = ''Sonic the Hedgehog (USA)''"
  by (simp add: strip_def isspace_def)

lemma sonic_clean:
  "fold region_step region_patterns ''Sonic the Hedgehog (USA)'' = ''Sonic the Hedgehog''"
  by (simp add: region_step_def region_patterns_def strip_def isspace_def lower_def
      lower_char_def char_of_eq_iff)

lemma sonic_genres:
  "game_genre sonic_game = ''Action''" "game_full_genre sonic_game = ''Action/Platformer''"
  by (simp_all add: game_genre_def game_full_genre_def genre_text_def first_segment_def
      sonic_game_def strip_def isspace_def)

lemma sonic_clean_strip:
  "strip ''Sonic the Hedgehog'' = ''Sonic the Hedgehog''"
  "collapse_ws ''Sonic the Hedgehog'' = ''Sonic the Hedgehog''"
  by (simp_all add: strip_def isspace_def)

lemma sonic_stem: "path_stem sonic_rom = ''Sonic the Hedgehog''"
  by (simp add: path_stem_def path_name_def rfind_dot_def sonic_rom_def)

lemma sonic_index:
  "\<forall>(k, e') \<in> set (fst (enhanced_xml_parsing iter True (Document [sonic_game]))). e' = sonic_entry"
  "snd (enhanced_xml_parsing iter True (Document [sonic_game])) = [''Sonic the Hedgehog (USA)'']"
  "map_of (fst (enhanced_xml_parsing iter True (Document [sonic_game]))) ''Sonic the Hedgehog''
     = Some sonic_entry"
proof -
  have e: "sonic_entry = \<lparr>original_name = strip ''Sonic the Hedgehog (USA)'',
      clean_name = fold region_step region_patterns (strip ''Sonic the Hedgehog (USA)''),
      genre = game_genre sonic_game, full_genre = game_full_genre sonic_game\<rparr>"
    by (simp add: sonic_entry_def sonic_strip sonic_clean sonic_genres)
  have n: "''Sonic the Hedgehog (USA)'' \<noteq> []" by simp
  note idx = single_game_index [OF sonic_name n e, of iter]
  show "\<forall>(k, e') \<in> set (fst (enhanced_xml_parsing iter True (Document [sonic_game]))). e' = sonic_entry"
    by (rule idx(1))
  show "snd (enhanced_xml_parsing iter True (Document [sonic_game])) = [''Sonic the Hedgehog (USA)'']"
    using idx(2) by (simp add: sonic_strip)
  have c: "clean_name sonic_entry = ''Sonic the Hedgehog''" by (simp add: sonic_entry_def)
  show "map_of (fst (enhanced_xml_parsing iter True (Document [sonic_game]))) ''Sonic the Hedgehog''
     = Some sonic_entry"
    using idx(3) unfolding c sonic_strip sonic_clean_strip by simp
qed


text \<open>
  Claim C9. Whatever the source is and whether the report can be written, every entry that
  \<^const>\<open>enhanced_xml_parsing\<close> returns as a value of the dictionary has its \<open>original_name\<close> in
  the list of names that is returned with it.
\<close>

theorem stored_entries_are_named:
  "\<forall>(variation, e) \<in> set (fst (enhanced_xml_parsing iter report_ok src)).
     original_name e \<in> set (snd (enhanced_xml_parsing iter report_ok src))"
proof -
  have "loader_inv ([], [])" by (simp add: loader_inv_def)
  then have "loader_inv (fold (process_game iter) games ([], []))" for games
    by (rule loader_loop_inv)
  then have "loader_inv (enhanced_xml_parsing iter report_ok src)"
    by (cases src) (simp_all add: enhanced_xml_parsing_def loader_inv_def)
  then show ?thesis by (simp add: loader_inv_def)
qed

text \<open>
  The theorem for the catalog of the example: the clean name is a key, and the original
  name of its entry is in the list.
\<close>

theorem stored_entries_are_named_witness:
  "(''Sonic the Hedgehog'', sonic_entry)
     \<in> set (fst (enhanced_xml_parsing insertion_order True (Document [sonic_game])))
   \<and> original_name sonic_entry
     \<in> set (snd (enhanced_xml_parsing insertion_order True (Document [sonic_game])))"
proof -
  have m: "(''Sonic the Hedgehog'', sonic_entry)
     \<in> set (fst (enhanced_xml_parsing insertion_order True (Document [sonic_game])))"
    using sonic_index(3) [of insertion_order] by (rule map_of_SomeD)
  with stored_entries_are_named [of insertion_order True "Document [sonic_game]"]
  have "original_name sonic_entry
     \<in> set (snd (enhanced_xml_parsing insertion_order True (Document [sonic_game])))"
    by blast
  with m show ?thesis by (intro conjI)
qed


section \<open>The statistics of the copier\<close>

lemma get0_update: "get0 (AList.update k v al) g = (if g = k then v else get0 al g)"
  by (simp add: get0_def update_conv')

lemma get0_Nil: "get0 [] g = 0"
  by (simp add: get0_def)

lemma sum_update_count:
  "sum_list (map snd (AList.update k (Suc (get0 al k)) al)) = Suc (sum_list (map snd al))"
  by (induction al) (auto simp: get0_def)

lemma copy_step_stats:
  "n_matched (stats (copy_step cfg read_rom r st))
     = n_matched (stats st) + (if matched r then 1 else 0)"
  "n_unmatched (stats (copy_step cfg read_rom r st))
     = n_unmatched (stats st) + (if matched r then 0 else 1)"
  "sum_list (map snd (genres (stats (copy_step cfg read_rom r st))))
     = sum_list (map snd (genres (stats st))) + 1"
  "get0 (genres (stats (copy_step cfg read_rom r st))) g
     = get0 (genres (stats st)) g + (if clean_genre_of cfg r = g then 1 else 0)"
  by (simp_all add: copy_step_def Let_def sum_update_count get0_update split: option.split)

lemma copy_loop_stats:
  "n_matched (stats (fold (copy_step cfg read_rom) rs st))
     = n_matched (stats st) + length (filter matched rs)"
  "n_unmatched (stats (fold (copy_step cfg read_rom) rs st))
     = n_unmatched (stats st) + length (filter (\<lambda>r. \<not> matched r) rs)"
  "sum_list (map snd (genres (stats (fold (copy_step cfg read_rom) rs st))))
     = sum_list (map snd (genres (stats st))) + length rs"
  "get0 (genres (stats (fold (copy_step cfg read_rom) rs st))) g
     = get0 (genres (stats st)) g + length (filter (\<lambda>r. clean_genre_of cfg r = g) rs)"
  by (induction rs arbitrary: st) (simp_all add: copy_step_stats)

text \<open>
  Claim C10. After \<^const>\<open>copy_roms_sequentially\<close> has processed a result list, the matched
  and the unmatched counter add up to the number of results (they count the matched and
  the unmatched results), the counters of the genres add up to the number of results, and
  the counter of a genre is the number of results, matched or not, whose sanitised genre
  it is.
\<close>

theorem copier_counts_every_result_once:
  "(let st = copy_roms_sequentially cfg read_rom results t
    in n_matched (stats st) + n_unmatched (stats st) = length results
     \<and> n_matched (stats st) = length (filter matched results)
     \<and> n_unmatched (stats st) = length (filter (\<lambda>r. \<not> matched r) results)
     \<and> sum_list (map snd (genres (stats st))) = length results
     \<and> (\<forall>g. get0 (genres (stats st)) g
              = length (filter (\<lambda>r. clean_genre_of cfg r = g) results)))"
proof -
  have "length (filter matched results) + length (filter (\<lambda>r. \<not> matched r) results)
      = length results"
    by (rule sum_length_filter_compl)
  then show ?thesis
    by (simp add: copy_roms_sequentially_def copy_loop_stats initial_copy_state_def get0_Nil)
qed


section \<open>Running the copier twice\<close>















section \<open>The sanitised genre\<close>

lemma kept_not_illegal: "kept_char c \<Longrightarrow> c \<notin> set illegal_chars"
  by (auto simp: kept_char_def illegal_chars_def isword_def isspace_def)

lemma filter_kept_illegal:
  "filter kept_char (filter (\<lambda>c. c \<notin> set illegal_chars) s) = filter kept_char s"
  by (induction s) (auto dest: kept_not_illegal)

lemma set_strip: "set (strip s) \<subseteq> set s"
  by (auto simp: strip_def dest!: set_dropWhileD)

lemma clean_genre_closed_form:
  "clean_genre_of cfg r =
     (let s = strip (if remove_special_chars cfg then filter kept_char (result_genre r)
                     else result_genre r)
      in if s = [] then ''Unknown'' else s)"
  by (simp add: clean_genre_of_def clean_filename_def Let_def filter_kept_illegal
      del: filter_filter)

lemma clean_genre_legal:
  assumes "remove_special_chars cfg" "c \<in> set (clean_genre_of cfg r)"
  shows "c \<notin> set illegal_chars"
proof (cases "strip (filter kept_char (result_genre r)) = []")
  case True
  then have "clean_genre_of cfg r = ''Unknown''"
    using assms(1) by (simp add: clean_genre_closed_form)
  then show ?thesis using assms(2) by (auto simp: illegal_chars_def)
next
  case False
  then have "clean_genre_of cfg r = strip (filter kept_char (result_genre r))"
    using assms(1) by (simp add: clean_genre_closed_form)
  then have "c \<in> set (strip (filter kept_char (result_genre r)))"
    using assms(2) by simp
  then have "c \<in> set (filter kept_char (result_genre r))"
    using set_strip by blast
  then show ?thesis by (simp add: kept_not_illegal)
qed

text \<open>
  Claim C8, as the code has it. The sanitised genre of a result is its genre, trimmed; when
  \<^verbatim>\<open>REMOVE_SPECIAL_CHARS\<close> is set, every character other than a word character,
  whitespace, \<open>-\<close>, \<open>_\<close> and \<open>.\<close> is removed first (so none of the illegal characters stays,
  and no other punctuation either). An empty outcome is replaced by \<open>Unknown\<close>. One round
  of the copier makes the folder of that name, and a file that it writes is in that folder.
\<close>

theorem clean_genre_sanitized:
  "clean_genre_of cfg r =
     (let s = strip (if remove_special_chars cfg then filter kept_char (result_genre r)
                     else result_genre r)
      in if s = [] then ''Unknown'' else s)
   \<and> clean_genre_of cfg r \<noteq> []
   \<and> (remove_special_chars cfg \<longrightarrow> (\<forall>c \<in> set (clean_genre_of cfg r). c \<notin> set illegal_chars))
   \<and> clean_genre_of cfg r \<in> folders (dest (copy_step cfg read_rom r st))
   \<and> (\<forall>a. files (dest (copy_step cfg read_rom r st)) a \<noteq> files (dest st) a \<longrightarrow>
          a = (clean_genre_of cfg r, destination_name_of cfg r))"
proof -
  have 1: "clean_genre_of cfg r \<noteq> []"
    by (simp add: clean_genre_closed_form Let_def)
  have 2: "remove_special_chars cfg \<longrightarrow> (\<forall>c \<in> set (clean_genre_of cfg r). c \<notin> set illegal_chars)"
    using clean_genre_legal by blast
  have 3: "clean_genre_of cfg r \<in> folders (dest (copy_step cfg read_rom r st))"
    by (simp add: copy_step_def Let_def split: option.split)
  have 4: "\<forall>a. files (dest (copy_step cfg read_rom r st)) a \<noteq> files (dest st) a \<longrightarrow>
          a = (clean_genre_of cfg r, destination_name_of cfg r)"
    by (auto simp: copy_step_def Let_def split: option.split if_splits)
  show ?thesis
    using clean_genre_closed_form 1 2 3 4 by (intro conjI)
qed

text \<open>
  The theorem for the second sample result, from the empty tree: its genre \<open>Unknown\<close> has
  only kept characters, the folder \<open>Unknown\<close> is made and the file is written into it.
\<close>

theorem clean_genre_sanitized_witness:
  "remove_special_chars shipped_config
   \<and> clean_genre_of shipped_config unmatched_sample = ''Unknown''
   \<and> CHR ''U'' \<in> set (clean_genre_of shipped_config unmatched_sample)
   \<and> CHR ''U'' \<notin> set illegal_chars
   \<and> files (dest (copy_step shipped_config sample_roms unmatched_sample
        (initial_copy_state \<lparr>folders = {}, files = Map.empty\<rparr>))) (''Unknown'', ''cd.nes'')
      \<noteq> files (dest (initial_copy_state \<lparr>folders = {}, files = Map.empty\<rparr>)) (''Unknown'', ''cd.nes'')
   \<and> (''Unknown'', ''cd.nes'')
      = (clean_genre_of shipped_config unmatched_sample,
         destination_name_of shipped_config unmatched_sample)"
proof -
  let ?r = unmatched_sample
  let ?st = "initial_copy_state \<lparr>folders = {}, files = Map.empty\<rparr>"
  note t = clean_genre_sanitized [of shipped_config ?r sample_roms ?st]
  have a: "remove_special_chars shipped_config" by (simp add: shipped_config_def)
  have g: "clean_genre_of shipped_config ?r = ''Unknown''"
    by (simp add: clean_genre_of_def clean_filename_def unmatched_sample_def shipped_config_def
        illegal_chars_def kept_char_def isword_def isspace_def strip_def)
  have u: "CHR ''U'' \<in> set (clean_genre_of shipped_config ?r)"
    unfolding g by simp
  from t a u have l: "CHR ''U'' \<notin> set illegal_chars" by blast
  have n: "destination_name_of shipped_config ?r = ''cd.nes''"
    by (simp add: destination_name_of_def clean_filename_def path_name_def unmatched_sample_def
        shipped_config_def illegal_chars_def kept_char_def isword_def isspace_def strip_def)
  have c: "sample_roms (rom_file ?r) = Some ''CD''"
    by (simp add: unmatched_sample_def sample_roms_def)
  have w: "files (dest (copy_step shipped_config sample_roms ?r ?st)) (''Unknown'', ''cd.nes'')
      \<noteq> files (dest ?st) (''Unknown'', ''cd.nes'')"
    by (simp add: copy_step_def Let_def initial_copy_state_def g n c)
  from t w have d: "(''Unknown'', ''cd.nes'')
      = (clean_genre_of shipped_config ?r, destination_name_of shipped_config ?r)"
    by blast
  show ?thesis
    by (intro conjI a g u l w d)
qed

text \<open>
  The genre \<open>Action & Adventure\<close> has no illegal character, so the specification's
  sanitising leaves it as it is; the code removes the ampersand.
\<close>

theorem clean_genre_ampersand_counterexample:
  "clean_genre_of shipped_config ampersand_result = ''Action  Adventure''
   \<and> spec_sanitize (result_genre ampersand_result) = ''Action & Adventure''
   \<and> clean_genre_of shipped_config ampersand_result \<noteq> spec_sanitize (result_genre ampersand_result)"
  by (simp add: clean_genre_of_def clean_filename_def ampersand_result_def shipped_config_def
      spec_sanitize_def illegal_chars_def kept_char_def isword_def isspace_def strip_def)


section \<open>The substring strategy\<close>

lemma first_some_None: "first_some f xs = None \<longleftrightarrow> (\<forall>x \<in> set xs. f x = None)"
  by (induction xs) (auto split: option.splits)

lemma first_some_SomeD: "first_some f xs = Some y \<Longrightarrow> \<exists>x \<in> set xs. f x = Some y"
  by (induction xs) (auto split: option.splits)

lemma startswith_iff: "startswith s p \<longleftrightarrow> (\<exists>q. s = p @ q)"
proof
  assume "startswith s p"
  then have "s = p @ drop (length p) s"
    unfolding startswith_def by (metis append_take_drop_id)
  then show "\<exists>q. s = p @ q" ..
next
  assume "\<exists>q. s = p @ q"
  then show "startswith s p" by (auto simp: startswith_def)
qed

lemma contains_iff: "contains s sub \<longleftrightarrow> (\<exists>p q. s = p @ sub @ q)"
proof (induction s)
  case Nil
  show ?case by simp
next
  case (Cons c cs)
  show ?case
  proof
    assume "contains (c # cs) sub"
    then consider "startswith (c # cs) sub" | "contains cs sub" by auto
    then show "\<exists>p q. c # cs = p @ sub @ q"
    proof cases
      case 1
      then obtain q where "c # cs = sub @ q" unfolding startswith_iff ..
      then have "c # cs = [] @ sub @ q" by simp
      then show ?thesis by blast
    next
      case 2
      then obtain p q where "cs = p @ sub @ q" using Cons.IH by blast
      then have "c # cs = (c # p) @ sub @ q" by simp
      then show ?thesis by blast
    qed
  next
    assume "\<exists>p q. c # cs = p @ sub @ q"
    then obtain p q where pq: "c # cs = p @ sub @ q" by blast
    show "contains (c # cs) sub"
    proof (cases p)
      case Nil
      then have "startswith (c # cs) sub" using pq unfolding startswith_iff by auto
      then show ?thesis by simp
    next
      case (Cons a p')
      then have "cs = p' @ sub @ q" using pq by simp
      then have "contains cs sub" using Cons.IH by blast
      then show ?thesis by simp
    qed
  qed
qed

lemma substring_match_Some:
  assumes "substring_match rom_name rom_variations metadata = Some e"
  shows "length rom_name \<le> 12 \<and> (\<exists>v \<in> set rom_variations. \<exists>k. (k, e) \<in> set metadata
    \<and> 4 \<le> length v \<and> (\<exists>p q. lower k = p @ lower v @ q) \<and> 3 * length k \<le> 5 * length v)"
proof -
  define inner where "inner = (\<lambda>v (meta_key, meta_data :: entry).
      if contains (lower meta_key) (lower v) \<and> 3 * length (lower meta_key) \<le> 5 * length (lower v)
      then Some meta_data else None)"
  define outer where "outer = (\<lambda>v. if 4 \<le> length (lower v) then first_some (inner v) metadata else None)"
  have unfold: "substring_match rom_name rom_variations metadata
      = (if length rom_name \<le> 12 then first_some outer rom_variations else None)"
    unfolding substring_match_def outer_def inner_def Let_def ..
  have short: "length rom_name \<le> 12"
    using assms unfolding unfold by (simp split: if_splits)
  then have "first_some outer rom_variations = Some e"
    using assms unfolding unfold by simp
  then obtain v where v: "v \<in> set rom_variations" "outer v = Some e"
    using first_some_SomeD by fastforce
  then have long: "4 \<le> length v" and "first_some (inner v) metadata = Some e"
    unfolding outer_def by (simp_all split: if_splits)
  then obtain ke where ke: "ke \<in> set metadata" "inner v ke = Some e"
    using first_some_SomeD by fastforce
  obtain k e' where "ke = (k, e')" by (cases ke)
  then have "(k, e) \<in> set metadata" "contains (lower k) (lower v)" "3 * length k \<le> 5 * length v"
    using ke unfolding inner_def by (simp_all split: if_splits)
  then show ?thesis
    using short v(1) long unfolding contains_iff by blast
qed

lemma substring_match_hit:
  assumes "length rom_name \<le> 12" "v \<in> set rom_variations" "(k, e) \<in> set metadata"
    "4 \<le> length v" "lower k = p @ lower v @ q" "3 * length k \<le> 5 * length v"
  shows "substring_match rom_name rom_variations metadata \<noteq> None"
proof -
  define inner where "inner = (\<lambda>v (meta_key, meta_data :: entry).
      if contains (lower meta_key) (lower v) \<and> 3 * length (lower meta_key) \<le> 5 * length (lower v)
      then Some meta_data else None)"
  define outer where "outer = (\<lambda>v. if 4 \<le> length (lower v) then first_some (inner v) metadata else None)"
  have unfold: "substring_match rom_name rom_variations metadata
      = (if length rom_name \<le> 12 then first_some outer rom_variations else None)"
    unfolding substring_match_def outer_def inner_def Let_def ..
  have "contains (lower k) (lower v)"
    unfolding contains_iff using assms(5) by blast
  then have "inner v (k, e) \<noteq> None"
    using assms(6) by (simp add: inner_def)
  then have "first_some (inner v) metadata \<noteq> None"
    using assms(3) unfolding first_some_None by fastforce
  then have "outer v \<noteq> None"
    using assms(4) by (simp add: outer_def)
  then have "first_some outer rom_variations \<noteq> None"
    using assms(2) unfolding first_some_None by fastforce
  then show ?thesis
    unfolding unfold using assms(1) by simp
qed

text \<open>
  Claim C5. The substring strategy of the matcher, \<^const>\<open>substring_match\<close>, finds an entry
  exactly when the ROM name has at most 12 characters and there are a variation of at least
  4 characters and a key of the catalog such that the lowercase variation is a substring of
  the lowercase key and is at least 60 percent as long as the key (\<open>3 * len(key) \<le> 5 *
  len(variation)\<close>). An entry that it returns is the entry of such a key, so nothing is
  returned for a ratio below 0.6.
\<close>

theorem substring_strategy_characterised:
  "(substring_match rom_name rom_variations metadata \<noteq> None \<longleftrightarrow>
      length rom_name \<le> 12
      \<and> (\<exists>v \<in> set rom_variations. \<exists>(k, e) \<in> set metadata.
            4 \<le> length v \<and> (\<exists>p q. lower k = p @ lower v @ q) \<and> 3 * length k \<le> 5 * length v))
   \<and> (\<forall>e. substring_match rom_name rom_variations metadata = Some e \<longrightarrow>
         length rom_name \<le> 12
         \<and> (\<exists>v \<in> set rom_variations. \<exists>k. (k, e) \<in> set metadata
              \<and> 4 \<le> length v \<and> (\<exists>p q. lower k = p @ lower v @ q) \<and> 3 * length k \<le> 5 * length v))"
proof -
  let ?accepts = "length rom_name \<le> 12
      \<and> (\<exists>v \<in> set rom_variations. \<exists>(k, e) \<in> set metadata.
            4 \<le> length v \<and> (\<exists>p q. lower k = p @ lower v @ q) \<and> 3 * length k \<le> 5 * length v)"
  have found: "length rom_name \<le> 12
         \<and> (\<exists>v \<in> set rom_variations. \<exists>k. (k, e) \<in> set metadata
              \<and> 4 \<le> length v \<and> (\<exists>p q. lower k = p @ lower v @ q) \<and> 3 * length k \<le> 5 * length v)"
    if "substring_match rom_name rom_variations metadata = Some e" for e
    using that by (rule substring_match_Some)
  have "?accepts" if ne: "substring_match rom_name rom_variations metadata \<noteq> None"
  proof -
    obtain e where "substring_match rom_name rom_variations metadata = Some e"
      using ne by auto
    from found [OF this] show ?thesis by blast
  qed
  moreover have "substring_match rom_name rom_variations metadata \<noteq> None" if "?accepts"
    using that substring_match_hit by blast
  ultimately have "substring_match rom_name rom_variations metadata \<noteq> None \<longleftrightarrow> ?accepts"
    by blast
  with found show ?thesis by blast
qed

text \<open>
  The theorem for the ROM name \<open>Zelda\<close> and a catalog with the key \<open>Zelda II\<close>: five of
  eight characters are more than 60 percent, and the entry of that key is returned. With
  the key \<open>The Legend of Zelda\<close>, of 19 characters, nothing is returned.
\<close>

theorem substring_strategy_characterised_witness:
  "length ''Zelda'' \<le> 12 \<and> ''Zelda'' \<in> set [''Zelda'']
   \<and> (''Zelda II'', zelda_entry) \<in> set [(''Zelda II'', zelda_entry)]
   \<and> 4 \<le> length ''Zelda'' \<and> lower ''Zelda II'' = [] @ lower ''Zelda'' @ lower '' II''
   \<and> 3 * length ''Zelda II'' \<le> 5 * length ''Zelda''
   \<and> substring_match ''Zelda'' [''Zelda''] [(''Zelda II'', zelda_entry)] = Some zelda_entry
   \<and> \<not> 3 * length ''The Legend of Zelda'' \<le> 5 * length ''Zelda''
   \<and> substring_match ''Zelda'' [''Zelda''] [(''The Legend of Zelda'', zelda_entry)] = None"
proof -
  note t = substring_strategy_characterised [of "''Zelda''" "[''Zelda'']" "[(''Zelda II'', zelda_entry)]"]
  have a: "length ''Zelda'' \<le> 12" by simp
  have b: "''Zelda'' \<in> set [''Zelda'']" by simp
  have c: "(''Zelda II'', zelda_entry) \<in> set [(''Zelda II'', zelda_entry)]" by simp
  have d: "4 \<le> length ''Zelda''" by simp
  have e: "lower ''Zelda II'' = [] @ lower ''Zelda'' @ lower '' II''" by (simp add: lower_def)
  have f: "3 * length ''Zelda II'' \<le> 5 * length ''Zelda''" by simp
  from a b c d e f have "length ''Zelda'' \<le> 12
      \<and> (\<exists>v \<in> set [''Zelda'']. \<exists>(k, e) \<in> set [(''Zelda II'', zelda_entry)].
            4 \<le> length v \<and> (\<exists>p q. lower k = p @ lower v @ q) \<and> 3 * length k \<le> 5 * length v)"
    by blast
  with t have "substring_match ''Zelda'' [''Zelda''] [(''Zelda II'', zelda_entry)] \<noteq> None"
    by blast
  then obtain x where x: "substring_match ''Zelda'' [''Zelda''] [(''Zelda II'', zelda_entry)] = Some x"
    by auto
  with t have "\<exists>v \<in> set [''Zelda'']. \<exists>k. (k, x) \<in> set [(''Zelda II'', zelda_entry)]
      \<and> 4 \<le> length v \<and> (\<exists>p q. lower k = p @ lower v @ q) \<and> 3 * length k \<le> 5 * length v"
    by blast
  then have "x = zelda_entry" by simp
  with x have g: "substring_match ''Zelda'' [''Zelda''] [(''Zelda II'', zelda_entry)] = Some zelda_entry"
    by simp
  have h: "\<not> 3 * length ''The Legend of Zelda'' \<le> 5 * length ''Zelda''" by simp
  note u = substring_strategy_characterised
    [of "''Zelda''" "[''Zelda'']" "[(''The Legend of Zelda'', zelda_entry)]", THEN conjunct1]
  have "\<not> (length ''Zelda'' \<le> 12
      \<and> (\<exists>v \<in> set [''Zelda'']. \<exists>(k, e) \<in> set [(''The Legend of Zelda'', zelda_entry)].
            4 \<le> length v \<and> (\<exists>p q. lower k = p @ lower v @ q) \<and> 3 * length k \<le> 5 * length v))"
    using h by simp
  with u have i: "substring_match ''Zelda'' [''Zelda''] [(''The Legend of Zelda'', zelda_entry)] = None"
    by simp
  show ?thesis
    by (intro conjI a b c d e f g h i)
qed


section \<open>The genre of a catalog record\<close>

lemma first_some_hit:
  assumes "x \<in> set xs" "f x \<noteq> None"
  shows "\<exists>x' \<in> set xs. \<exists>y. f x' = Some y \<and> first_some f xs = Some y"
  using assms by (induction xs) (auto split: option.splits)

lemma first_segment_no_slash: "CHR ''/'' \<notin> set s \<Longrightarrow> first_segment s = s"
  by (auto simp: first_segment_def takeWhile_eq_all_conv)

lemma genre_text_None:
  "genre_text g = None \<longleftrightarrow>
     genre_elem g = None \<or> genre_elem g = Some None \<or> genre_elem g = Some (Some [])"
  by (auto simp: genre_text_def split: option.splits)

lemma genre_text_Some: "genre_text g = Some text \<longleftrightarrow> genre_elem g = Some (Some text) \<and> text \<noteq> []"
  by (auto simp: genre_text_def split: option.splits)

lemma game_genre_absent:
  assumes "genre_text g = None"
  shows "game_genre g = ''Unknown''" "game_full_genre g = ''Unknown''"
  using assms by (simp_all add: game_genre_def game_full_genre_def)

lemma game_genre_present:
  assumes "genre_text g = Some text"
  shows "game_genre g = strip (first_segment (strip text))" "game_full_genre g = strip text"
  using assms by (simp_all add: game_genre_def game_full_genre_def Let_def first_segment_no_slash)

lemma sonic_matched:
  assumes "keeps_elements iter"
  shows "hyper_aggressive_rom_matching iter ratio sonic_rom
      (fst (enhanced_xml_parsing iter True (Document [sonic_game])))
      (snd (enhanced_xml_parsing iter True (Document [sonic_game]))) = Some sonic_entry"
proof -
  let ?md = "fst (enhanced_xml_parsing iter True (Document [sonic_game]))"
  let ?vs = "create_ultra_aggressive_variations iter ''Sonic the Hedgehog''"
  have "1 < length (strip ''Sonic the Hedgehog'')"
    unfolding sonic_clean_strip by simp
  then have "collapse_ws (strip ''Sonic the Hedgehog'') \<in> set ?vs"
    using variations_props [OF assms, of "''Sonic the Hedgehog''"] by blast
  then have v: "''Sonic the Hedgehog'' \<in> set ?vs"
    unfolding sonic_clean_strip .
  have "map_of ?md ''Sonic the Hedgehog'' \<noteq> None"
    by (simp add: sonic_index(3))
  from first_some_hit [of "''Sonic the Hedgehog''" ?vs "map_of ?md", OF v this]
  have "\<exists>v' \<in> set ?vs. \<exists>y. map_of ?md v' = Some y \<and> exact_match ?vs ?md = Some y"
    unfolding exact_match_def .
  then obtain v' where "\<exists>y. map_of ?md v' = Some y \<and> exact_match ?vs ?md = Some y" ..
  then obtain e where "map_of ?md v' = Some e \<and> exact_match ?vs ?md = Some e" ..
  then have e: "map_of ?md v' = Some e" "exact_match ?vs ?md = Some e"
    by (rule conjunct1, rule conjunct2)
  have "(v', e) \<in> set ?md" using e(1) by (rule map_of_SomeD)
  from bspec [OF sonic_index(1) this] have "e = sonic_entry" by simp
  then have "exact_match ?vs ?md = Some sonic_entry" using e(2) by simp
  then show ?thesis
    by (simp add: hyper_aggressive_rom_matching_def sonic_stem)
qed

text \<open>
  Claim C6, as the code has it. The loader gives a catalog record the genre \<open>Unknown\<close> when
  it has no genre child, or one without text; otherwise the genre is the first
  slash-separated segment of the trimmed text, trimmed again, and the full genre is the
  trimmed text. Every entry of the index has the genre and the full genre of a record of
  the document. For the catalog with the single record \<open>Sonic the Hedgehog (USA)\<close> of genre
  \<open>Action/Platformer\<close>, the ROM file with the stem \<open>Sonic the Hedgehog\<close> is matched to the
  entry with genre \<open>Action\<close> and full genre \<open>Action/Platformer\<close>, whatever the order in which
  the sets are iterated and whatever the similarity ratio is.
\<close>

theorem loader_genre_first_segment_trimmed:
  "(genre_elem g = None \<or> genre_elem g = Some None \<or> genre_elem g = Some (Some []) \<longrightarrow>
      game_genre g = ''Unknown'' \<and> game_full_genre g = ''Unknown'')
   \<and> (\<forall>text. genre_elem g = Some (Some text) \<and> text \<noteq> [] \<longrightarrow>
         game_genre g = strip (first_segment (strip text)) \<and> game_full_genre g = strip text)
   \<and> (\<forall>(variation, e) \<in> set (fst (enhanced_xml_parsing iter report_ok (Document games))).
         \<exists>g' \<in> set games. genre e = game_genre g' \<and> full_genre e = game_full_genre g')
   \<and> (keeps_elements iter \<longrightarrow>
        (\<exists>e. hyper_aggressive_rom_matching iter ratio sonic_rom
               (fst (enhanced_xml_parsing iter True (Document [sonic_game])))
               (snd (enhanced_xml_parsing iter True (Document [sonic_game]))) = Some e
           \<and> genre e = ''Action'' \<and> full_genre e = ''Action/Platformer''))"
proof -
  have 1: "genre_elem g = None \<or> genre_elem g = Some None \<or> genre_elem g = Some (Some []) \<longrightarrow>
      game_genre g = ''Unknown'' \<and> game_full_genre g = ''Unknown''"
    using game_genre_absent [of g] unfolding genre_text_None by blast
  have 2: "\<forall>text. genre_elem g = Some (Some text) \<and> text \<noteq> [] \<longrightarrow>
         game_genre g = strip (first_segment (strip text)) \<and> game_full_genre g = strip text"
    using game_genre_present [of g] unfolding genre_text_Some by blast
  have "genres_from (set games) (fst (fold (process_game iter) games ([], [])))"
    by (rule loader_loop_genres) (simp_all add: genres_from_def)
  then have "genres_from (set games) (fst (enhanced_xml_parsing iter report_ok (Document games)))"
    by (simp add: enhanced_xml_parsing_def genres_from_def)
  then have 3: "\<forall>(variation, e) \<in> set (fst (enhanced_xml_parsing iter report_ok (Document games))).
         \<exists>g' \<in> set games. genre e = game_genre g' \<and> full_genre e = game_full_genre g'"
    by (simp add: genres_from_def)
  have 4: "keeps_elements iter \<longrightarrow>
        (\<exists>e. hyper_aggressive_rom_matching iter ratio sonic_rom
               (fst (enhanced_xml_parsing iter True (Document [sonic_game])))
               (snd (enhanced_xml_parsing iter True (Document [sonic_game]))) = Some e
           \<and> genre e = ''Action'' \<and> full_genre e = ''Action/Platformer'')"
    using sonic_matched [of iter ratio] by (simp add: sonic_entry_def)
  show ?thesis
    by (intro conjI 1 2 3 4)
qed

text \<open>
  The theorem for the example record, for a record without a genre, and for the example
  catalog read in insertion order.
\<close>

theorem loader_genre_first_segment_trimmed_witness:
  "genre_elem plain_game = None
   \<and> game_genre plain_game = ''Unknown'' \<and> game_full_genre plain_game = ''Unknown''
   \<and> genre_elem sonic_game = Some (Some ''Action/Platformer'') \<and> ''Action/Platformer'' \<noteq> []
   \<and> game_genre sonic_game = strip (first_segment (strip ''Action/Platformer''))
   \<and> game_full_genre sonic_game = strip ''Action/Platformer''
   \<and> (''Sonic the Hedgehog'', sonic_entry)
       \<in> set (fst (enhanced_xml_parsing insertion_order True (Document [sonic_game])))
   \<and> (\<exists>g' \<in> set [sonic_game].
         genre sonic_entry = game_genre g' \<and> full_genre sonic_entry = game_full_genre g')
   \<and> keeps_elements insertion_order
   \<and> (\<exists>e. hyper_aggressive_rom_matching insertion_order never_similar sonic_rom
             (fst (enhanced_xml_parsing insertion_order True (Document [sonic_game])))
             (snd (enhanced_xml_parsing insertion_order True (Document [sonic_game]))) = Some e
         \<and> genre e = ''Action'' \<and> full_genre e = ''Action/Platformer'')"
proof -
  note p = loader_genre_first_segment_trimmed [of plain_game insertion_order True "[sonic_game]"
      never_similar]
  note s = loader_genre_first_segment_trimmed [of sonic_game insertion_order True "[sonic_game]"
      never_similar]
  note p1 = p [THEN conjunct1]
  note s2 = s [THEN conjunct2, THEN conjunct1]
  note s3 = s [THEN conjunct2, THEN conjunct2, THEN conjunct1]
  note s4 = s [THEN conjunct2, THEN conjunct2, THEN conjunct2]
  have a: "genre_elem plain_game = None" by (simp add: plain_game_def)
  with p1 have b: "game_genre plain_game = ''Unknown''" and c: "game_full_genre plain_game = ''Unknown''"
    by simp_all
  have d: "genre_elem sonic_game = Some (Some ''Action/Platformer'')" by (simp add: sonic_game_def)
  have e: "''Action/Platformer'' \<noteq> []" by simp
  from s2 [rule_format, OF conjI [OF d e]]
  have f: "game_genre sonic_game = strip (first_segment (strip ''Action/Platformer''))"
    and g: "game_full_genre sonic_game = strip ''Action/Platformer''"
    by simp_all
  have h: "(''Sonic the Hedgehog'', sonic_entry)
       \<in> set (fst (enhanced_xml_parsing insertion_order True (Document [sonic_game])))"
    using sonic_index(3) [of insertion_order] by (rule map_of_SomeD)
  from bspec [OF s3 h]
  have i: "\<exists>g' \<in> set [sonic_game].
         genre sonic_entry = game_genre g' \<and> full_genre sonic_entry = game_full_genre g'"
    by simp
  have j: "keeps_elements insertion_order"
    by (simp add: keeps_elements_def insertion_order_def)
  from s4 [rule_format, OF j]
  have k: "\<exists>e. hyper_aggressive_rom_matching insertion_order never_similar sonic_rom
             (fst (enhanced_xml_parsing insertion_order True (Document [sonic_game])))
             (snd (enhanced_xml_parsing insertion_order True (Document [sonic_game]))) = Some e
         \<and> genre e = ''Action'' \<and> full_genre e = ''Action/Platformer''" .
  show ?thesis
    by (intro conjI a b c d e f g h i j k)
qed

text \<open>
  A genre field with spaces around the slash: its first slash-separated segment ends with a
  space, and the genre that the loader stores does not.
\<close>

theorem loader_genre_spaces_counterexample:
  "genre_elem spaced_game = Some (Some ''Action / Adventure'')
   \<and> game_genre spaced_game = ''Action''
   \<and> spec_genre ''Action / Adventure'' = ''Action ''
   \<and> game_genre spaced_game \<noteq> spec_genre ''Action / Adventure''"
  by (simp add: game_genre_def genre_text_def spaced_game_def spec_genre_def first_segment_def
      strip_def isspace_def)

end
